theory Spec2Isabelle
  imports Main "HOL-Library.Word" "HOL-Library.Signed_Division"
begin

unbundle bit_operations_syntax

section \<open>Configuration constants and enumerations (SPIFFS\_ImageReader.h)\<close>

text \<open>
  \<^verbatim>\<open>#define NUM_CANVAS 12\<close>, \<^verbatim>\<open>#define CANVAS_HEIGHT 20\<close> and, for every target that is
  not an AVR (the library reads from SPIFFS, an ESP32/ESP8266 file system),
  \<^verbatim>\<open>#define BUFPIXELS 200\<close>.
\<close>

definition NUM_CANVAS :: nat where
  "NUM_CANVAS = 12"

definition CANVAS_HEIGHT :: nat where
  "CANVAS_HEIGHT = 20"

definition BUFPIXELS :: nat where
  "BUFPIXELS = 200"

datatype ImageReturnCode =
  IMAGE_SUCCESS | IMAGE_ERR_FILE_NOT_FOUND | IMAGE_ERR_FORMAT | IMAGE_ERR_MALLOC

datatype ImageFormat = IMAGE_NONE | IMAGE_16

text \<open>
  The C++ has two ways of leaving a call other than returning: in \<open>coreBMP\<close> a member
  function is called through a canvas pointer that may be \<open>NULL\<close>, and a pixel is stored
  through \<open>currentDest[destidx++]\<close> with no bound check of its own. Both are undefined
  behaviour in C++; the model makes each a value.
\<close>

datatype fault = NullPointer | BufferOverrun

section \<open>Collaborators: the canvas class and the file\<close>

text \<open>
  \<open>GFXcanvas16\<close> belongs to the Adafruit GFX library. The loader uses its constructor
  \<open>GFXcanvas16(uint16_t w, uint16_t h)\<close> (a zero-filled buffer of \<open>w * h\<close> 16-bit pixels),
  \<open>getBuffer()\<close>, and \<open>width()\<close> and \<open>height()\<close>, which return the dimensions as
  \<open>int16_t\<close>.
\<close>

record GFXcanvas16 =
  WIDTH :: "16 word"
  HEIGHT :: "16 word"
  buffer :: "16 word list"

definition new_GFXcanvas16 :: "16 word \<Rightarrow> 16 word \<Rightarrow> GFXcanvas16" where
  "new_GFXcanvas16 cw ch =
     \<lparr>WIDTH = cw, HEIGHT = ch, buffer = replicate (unat cw * unat ch) 0\<rparr>"

text \<open>
  \<open>currentCanvas->width() * currentCanvas->height()\<close>: two \<open>int16_t\<close> values promoted to
  \<open>int\<close> and multiplied; the comparison with the \<open>uint32_t destidx\<close> converts the product
  to \<open>uint32_t\<close>.
\<close>

definition capacity :: "GFXcanvas16 \<Rightarrow> nat" where
  "capacity c = unat ((scast (WIDTH c) :: 32 word) * scast (HEIGHT c))"

text \<open>
  The Arduino \<open>File\<close>: the bytes of the file and the read position. A file is opened at
  position 0. \<open>read()\<close> returns the
  next byte as an \<open>int\<close>, or \<open>-1\<close> at the end of the file; \<open>read(buf, n)\<close> copies the
  bytes that are left, at most \<open>n\<close>, to the front of \<open>buf\<close>; \<open>seek\<close> past the end stops at
  the end (as SPIFFS does).
\<close>

record File =
  contents :: "8 word list"
  position :: nat

definition file_read :: "File \<Rightarrow> 32 word \<times> File" where
  "file_read f =
     (if position f < length (contents f)
      then (ucast (contents f ! position f), f\<lparr>position := position f + 1\<rparr>)
      else (- 1, f))"

definition file_read_buf :: "File \<Rightarrow> 8 word list \<Rightarrow> nat \<Rightarrow> 8 word list \<times> File" where
  "file_read_buf f buf n =
     (let got = take n (drop (position f) (contents f))
      in (got @ drop (length got) buf, f\<lparr>position := position f + length got\<rparr>))"

definition open_file :: "8 word list \<Rightarrow> File" where
  "open_file bytes = \<lparr>contents = bytes, position = 0\<rparr>"

definition file_seek :: "File \<Rightarrow> nat \<Rightarrow> File" where
  "file_seek f p = f\<lparr>position := min p (length (contents f))\<rparr>"

section \<open>SPIFFS\_Image\<close>

record SPIFFS_Image =
  w :: "16 word"
  h :: "16 word"
  canvas :: "GFXcanvas16 option list"
  format :: ImageFormat

text \<open>
  The constructor sets the format and clears the \<open>NUM_CANVAS\<close> slots; it does not
  initialise \<open>w\<close> and \<open>h\<close>, whose indeterminate values are the parameters.
\<close>

definition SPIFFS_Image_new :: "16 word \<Rightarrow> 16 word \<Rightarrow> SPIFFS_Image" where
  "SPIFFS_Image_new w0 h0 =
     \<lparr>w = w0, h = h0, canvas = replicate NUM_CANVAS None, format = IMAGE_NONE\<rparr>"

definition dealloc :: "SPIFFS_Image \<Rightarrow> SPIFFS_Image" where
  "dealloc img = img\<lparr>canvas := replicate NUM_CANVAS None, format := IMAGE_NONE\<rparr>"

definition width :: "SPIFFS_Image \<Rightarrow> 16 word" where
  "width img =
     (if format img \<noteq> IMAGE_NONE then (if format img = IMAGE_16 then w img else 0) else 0)"

definition height :: "SPIFFS_Image \<Rightarrow> 16 word" where
  "height img =
     (if format img \<noteq> IMAGE_NONE then (if format img = IMAGE_16 then h img else 0) else 0)"

text \<open>
  \<open>draw\<close> calls \<open>tft.drawRGBBitmap(x, y, buffer, width, height)\<close>; the display is the
  list of these calls, in order.
\<close>

datatype blit = DrawRGBBitmap "16 word" "16 word" "16 word list" "16 word" "16 word"

function draw_loop :: "GFXcanvas16 option list \<Rightarrow> nat \<Rightarrow> 16 word \<Rightarrow> 16 word \<Rightarrow> blit list" where
  "draw_loop cs i x y =
     (if i < NUM_CANVAS then
        (case cs ! i of
           Some c \<Rightarrow>
             DrawRGBBitmap x y (buffer c) (WIDTH c) (HEIGHT c)
               # draw_loop cs (i + 1) x (y + of_nat CANVAS_HEIGHT)
         | None \<Rightarrow> draw_loop cs (i + 1) x y)
      else [])"
  by pat_completeness auto
termination
  by (relation "measure (\<lambda>(cs, i, x, y). NUM_CANVAS - i)") auto

definition draw :: "SPIFFS_Image \<Rightarrow> 16 word \<Rightarrow> 16 word \<Rightarrow> blit list" where
  "draw img x y = (if format img = IMAGE_16 then draw_loop (canvas img) 0 x y else [])"

section \<open>SPIFFS\_ImageReader: little-endian reads\<close>

text \<open>
  The ESP32/ESP8266 branch of \<open>readLE16\<close> and \<open>readLE32\<close>: byte-wise reads, combined in
  \<open>int\<close> and \<open>uint32_t\<close> arithmetic, the operands read from left to right.
\<close>

definition readLE16 :: "File \<Rightarrow> 16 word \<times> File" where
  "readLE16 f =
     (let (a, f1) = file_read f; (b, f2) = file_read f1
      in (ucast (a OR push_bit 8 (ucast (ucast b :: 16 word) :: 32 word)), f2))"

definition readLE32 :: "File \<Rightarrow> 32 word \<times> File" where
  "readLE32 f =
     (let (a, f1) = file_read f; (b, f2) = file_read f1;
          (c, f3) = file_read f2; (d, f4) = file_read f3
      in (a OR push_bit 8 b OR push_bit 16 c OR push_bit 24 d, f4))"

section \<open>SPIFFS\_ImageReader: the BMP loader\<close>

text \<open>
  The header fields \<open>coreBMP\<close> keeps in local variables. \<open>bmpWidth\<close> and \<open>bmpHeight\<close> are
  C \<open>int\<close>s (32 bits on the target, read here as two's complement words), \<open>planes\<close> and
  \<open>depth\<close> are \<open>uint8_t\<close>: the 16-bit fields of the file are cut to their low byte.
\<close>

record BmpHeader =
  offset :: "32 word"
  headerSize :: "32 word"
  bmpWidth :: "32 word"
  bmpHeight :: "32 word"
  flip :: bool
  planes :: "8 word"
  depth :: "8 word"
  compression :: "32 word"

text \<open>
  The reads after the signature (file size and creator bytes ignored; data offset; DIB
  header). A negative height is negated and clears \<open>flip\<close>; the negation of the least
  \<open>int\<close> wraps to itself, as the target's instruction does. The palette size \<open>colors\<close>
  is read and never used afterwards, so only its reads are kept.
\<close>

definition read_header :: "File \<Rightarrow> BmpHeader \<times> File" where
  "read_header f0 =
     (let (ignored1, f1) = readLE32 f0;
          (ignored2, f2) = readLE32 f1;
          (off, f3) = readLE32 f2;
          (hs, f4) = readLE32 f3;
          (bw, f5) = readLE32 f4;
          (bh, f6) = readLE32 f5;
          (pl, f7) = readLE16 f6;
          (dp, f8) = readLE16 f7;
          (comp, f9) =
            (if 12 < hs then
               (let (c, g1) = readLE32 f8;
                    (ignored3, g2) = readLE32 g1;
                    (ignored4, g3) = readLE32 g2;
                    (ignored5, g4) = readLE32 g3;
                    (colors, g5) = readLE32 g4;
                    (ignored6, g6) = readLE32 g5
                in (c, g6))
             else (0, f8))
      in (\<lparr>offset = off, headerSize = hs, bmpWidth = bw,
            bmpHeight = (if sint bh < 0 then - bh else bh),
            flip = (\<not> sint bh < 0),
            planes = ucast pl, depth = ucast dp, compression = comp\<rparr>, f9))"

text \<open>
  \<open>rowSize = ((depth * bmpWidth + 31) / 32) * 4\<close>: \<open>int\<close> arithmetic (the division rounds
  towards zero), the result converted to \<open>uint32_t\<close>.
\<close>

definition rowSize_of :: "8 word \<Rightarrow> 32 word \<Rightarrow> 32 word" where
  "rowSize_of dp bw = word_of_int (sint (ucast dp * bw + 31 :: 32 word) sdiv 32) * 4"

text \<open>
  The allocation loop. \<open>new_ok i\<close> says whether the \<open>new GFXcanvas16\<close> of iteration \<open>i\<close>
  yields an object; the code treats a null result as the failure. \<open>remainingHeight\<close> is a
  \<open>uint16_t\<close>: the subtraction wraps.
\<close>

function alloc_loop ::
  "(nat \<Rightarrow> bool) \<Rightarrow> 32 word \<Rightarrow> nat \<Rightarrow> bool \<Rightarrow> 16 word \<Rightarrow> GFXcanvas16 option list
     \<Rightarrow> bool \<times> GFXcanvas16 option list" where
  "alloc_loop new_ok bw i allDestsCreated remainingHeight cs =
     (if allDestsCreated \<and> 0 < remainingHeight \<and> i < NUM_CANVAS then
        (let canvasHeight =
               (if of_nat CANVAS_HEIGHT < remainingHeight then of_nat CANVAS_HEIGHT
                else remainingHeight);
             remainingHeight' = remainingHeight - of_nat CANVAS_HEIGHT
         in if new_ok i
            then alloc_loop new_ok bw (i + 1) True remainingHeight'
                   (cs[i := Some (new_GFXcanvas16 (ucast bw) canvasHeight)])
            else alloc_loop new_ok bw (i + 1) False remainingHeight' (cs[i := None]))
      else (allDestsCreated, cs))"
  by pat_completeness auto
termination
  by (relation "measure (\<lambda>(new_ok, bw, i, ok, rem, cs). NUM_CANVAS - i)") auto

text \<open>
  The locals of the scanline loop that change: the open file (the member \<open>file\<close>), the read buffer and its
  index, the write index, the canvas index (a \<open>uint8_t\<close>), and \<open>currentCanvas\<close> with
  \<open>currentDest\<close>, which always point to the canvas of one slot of \<open>img->canvas\<close> and to
  its buffer: the model keeps the slot's number. \<open>srcidx\<close> stays at most \<open>sizeof sdbuf\<close>
  and \<open>destidx\<close> below the length of a buffer, so neither wraps.
\<close>

record decode_state =
  bmp_file :: File
  sdbuf :: "8 word list"
  srcidx :: nat
  destidx :: nat
  currentCanvasIndex :: "8 word"
  currentCanvas :: nat
  canvases :: "GFXcanvas16 option list"

definition color565 :: "8 word \<Rightarrow> 8 word \<Rightarrow> 8 word \<Rightarrow> 16 word" where
  "color565 r g b =
     ucast (push_bit 8 ((ucast r :: 32 word) AND 0xF8)
            OR push_bit 3 ((ucast g :: 32 word) AND 0xFC)
            OR drop_bit 3 (ucast b :: 32 word))"

text \<open>\<open>if (srcidx >= sizeof sdbuf) { file.read(sdbuf, sizeof sdbuf); srcidx = 0; }\<close>\<close>

definition load_more :: "decode_state \<Rightarrow> decode_state" where
  "load_more s =
     (if 3 * BUFPIXELS \<le> srcidx s then
        (let (buf, f) = file_read_buf (bmp_file s) (sdbuf s) (3 * BUFPIXELS)
         in s\<lparr>bmp_file := f, sdbuf := buf, srcidx := 0\<rparr>)
      else s)"

text \<open>
  \<open>currentDest[destidx++] = v\<close> and the switch to the next canvas when the current one
  is full. Past the last slot the pointers are left as they are.
\<close>

definition store_pixel :: "16 word \<Rightarrow> decode_state \<Rightarrow> fault + decode_state" where
  "store_pixel v s =
     (case canvases s ! currentCanvas s of
        None \<Rightarrow> Inl NullPointer
      | Some c \<Rightarrow>
          if destidx s < length (buffer c) then
            (let s1 = s\<lparr>canvases := (canvases s)
                          [currentCanvas s := Some (c\<lparr>buffer := (buffer c)[destidx s := v]\<rparr>)],
                        destidx := destidx s + 1\<rparr>
             in if capacity c \<le> destidx s1 then
                  (let idx = currentCanvasIndex s1 + 1
                   in if unat idx < NUM_CANVAS then
                        (case canvases s1 ! unat idx of
                           None \<Rightarrow> Inl NullPointer
                         | Some c' \<Rightarrow>
                             Inr (s1\<lparr>destidx := 0, currentCanvasIndex := idx,
                                     currentCanvas := unat idx\<rparr>))
                      else Inr (s1\<lparr>destidx := 0, currentCanvasIndex := idx\<rparr>))
                else Inr s1)
          else Inl BufferOverrun)"

definition pixel_body :: "decode_state \<Rightarrow> fault + decode_state" where
  "pixel_body s =
     (let s1 = load_more s;
          b = sdbuf s1 ! srcidx s1;
          g = sdbuf s1 ! (srcidx s1 + 1);
          r = sdbuf s1 ! (srcidx s1 + 2)
      in store_pixel (color565 r g b) (s1\<lparr>srcidx := srcidx s1 + 3\<rparr>))"

function pixel_loop :: "int \<Rightarrow> nat \<Rightarrow> decode_state \<Rightarrow> fault + decode_state" where
  "pixel_loop loadWidth col s =
     (if int col < loadWidth then
        (case pixel_body s of
           Inl e \<Rightarrow> Inl e
         | Inr s' \<Rightarrow> pixel_loop loadWidth (col + 1) s')
      else Inr s)"
  by pat_completeness auto
termination
  by (relation "measure (\<lambda>(loadWidth, col, s). nat loadWidth - col)") auto

text \<open>
  The start of a scanline: the position of the row in the file (\<open>uint32_t\<close> arithmetic,
  \<open>loadX = loadY = 0\<close>), and the seek, made only when the file is not there already.
\<close>

definition bmpPos_of :: "BmpHeader \<Rightarrow> 32 word \<Rightarrow> nat \<Rightarrow> 32 word" where
  "bmpPos_of hdr rowSize row =
     (if flip hdr then offset hdr + (bmpHeight hdr - 1 - (of_nat row + 0)) * rowSize
      else offset hdr + (of_nat row + 0) * rowSize) + 0 * 3"

definition seek_row :: "BmpHeader \<Rightarrow> 32 word \<Rightarrow> nat \<Rightarrow> decode_state \<Rightarrow> decode_state" where
  "seek_row hdr rowSize row s =
     (let bmpPos = bmpPos_of hdr rowSize row
      in if position (bmp_file s) \<noteq> unat bmpPos
         then s\<lparr>bmp_file := file_seek (bmp_file s) (unat bmpPos), srcidx := 3 * BUFPIXELS\<rparr>
         else s)"

function row_loop ::
  "BmpHeader \<Rightarrow> 32 word \<Rightarrow> nat \<Rightarrow> decode_state \<Rightarrow> fault + decode_state" where
  "row_loop hdr rowSize row s =
     (if unat (currentCanvasIndex s) < NUM_CANVAS \<and> int row < sint (bmpHeight hdr) then
        (case pixel_loop (sint (bmpWidth hdr)) 0 (seek_row hdr rowSize row s) of
           Inl e \<Rightarrow> Inl e
         | Inr s' \<Rightarrow> row_loop hdr rowSize (row + 1) s')
      else Inr s)"
  by pat_completeness auto
termination
  by (relation "measure (\<lambda>(hdr, rowSize, row, s). nat (sint (bmpHeight hdr)) - row)") auto

text \<open>
  The body of \<open>if (depth == 24)\<close>: the dimensions are stored, the canvases allocated,
  and, when every allocation gave an object, the pixels decoded. \<open>sdbuf\<close> is a local
  array of \<open>3 * BUFPIXELS\<close> bytes that is not initialised: \<open>junk\<close> is what it holds.
\<close>

definition load24 ::
  "(nat \<Rightarrow> bool) \<Rightarrow> 8 word list \<Rightarrow> BmpHeader \<Rightarrow> 32 word \<Rightarrow> File \<Rightarrow> SPIFFS_Image
     \<Rightarrow> fault + ImageReturnCode \<times> SPIFFS_Image" where
  "load24 new_ok junk hdr rowSize f img =
     (let img1 = img\<lparr>w := ucast (bmpWidth hdr), h := ucast (bmpHeight hdr)\<rparr>;
          (allDestsCreated, cs) =
             alloc_loop new_ok (bmpWidth hdr) 0 True (ucast (bmpHeight hdr)) (canvas img1);
          img2 = img1\<lparr>canvas := cs\<rparr>
      in if allDestsCreated then
           (case cs ! 0 of
              None \<Rightarrow> Inl NullPointer
            | Some c \<Rightarrow>
                (let img3 = img2\<lparr>format := IMAGE_16\<rparr>
                 in if 16 \<le> depth hdr then
                      (case row_loop hdr rowSize 0
                              \<lparr>bmp_file = f,
                               sdbuf = take (3 * BUFPIXELS) (junk @ replicate (3 * BUFPIXELS) 0),
                               srcidx = 3 * BUFPIXELS, destidx = 0,
                               currentCanvasIndex = 0, currentCanvas = 0, canvases = cs\<rparr> of
                         Inl e \<Rightarrow> Inl e
                       | Inr s \<Rightarrow> Inr (IMAGE_SUCCESS, img3\<lparr>canvas := canvases s\<rparr>))
                    else Inr (IMAGE_SUCCESS, img3)))
         else Inr (IMAGE_ERR_MALLOC, img2))"

text \<open>
  \<open>coreBMP\<close>. \<open>fs\<close> is the SPIFFS partition: the bytes of each file that can be opened.
\<close>

definition coreBMP ::
  "(string \<Rightarrow> 8 word list option) \<Rightarrow> (nat \<Rightarrow> bool) \<Rightarrow> 8 word list \<Rightarrow> string \<Rightarrow> SPIFFS_Image
     \<Rightarrow> fault + ImageReturnCode \<times> SPIFFS_Image" where
  "coreBMP fs new_ok junk filename img0 =
     (let img = dealloc img0
      in case fs filename of
           None \<Rightarrow> Inr (IMAGE_ERR_FILE_NOT_FOUND, img)
         | Some bytes \<Rightarrow>
             (let (signature, f1) = readLE16 (open_file bytes)
              in if signature = 0x4D42 then
                   (let (hdr, f2) = read_header f1
                    in if planes hdr = 1 \<and> compression hdr = 0 then
                         (let rowSize = rowSize_of (depth hdr) (bmpWidth hdr)
                          in if depth hdr = 24 then load24 new_ok junk hdr rowSize f2 img
                             else Inr (IMAGE_ERR_FORMAT, img))
                       else Inr (IMAGE_ERR_FORMAT, img))
                 else Inr (IMAGE_ERR_FORMAT, img)))"

definition loadBMP ::
  "(string \<Rightarrow> 8 word list option) \<Rightarrow> (nat \<Rightarrow> bool) \<Rightarrow> 8 word list \<Rightarrow> string \<Rightarrow> SPIFFS_Image
     \<Rightarrow> fault + ImageReturnCode \<times> SPIFFS_Image" where
  "loadBMP fs new_ok junk filename img = coreBMP fs new_ok junk filename img"

text \<open>
  \<open>bmpDimensions\<close>. Each out-parameter is \<open>None\<close> for a null pointer and otherwise holds
  the value of the variable it points to, before and after the call.
\<close>

definition bmpDimensions ::
  "(string \<Rightarrow> 8 word list option) \<Rightarrow> string \<Rightarrow> 32 word option \<Rightarrow> 32 word option
     \<Rightarrow> ImageReturnCode \<times> 32 word option \<times> 32 word option" where
  "bmpDimensions fs filename width_p height_p =
     (case fs filename of
        None \<Rightarrow> (IMAGE_ERR_FILE_NOT_FOUND, width_p, height_p)
      | Some bytes \<Rightarrow>
          (let (signature, f1) = readLE16 (open_file bytes)
           in if signature = 0x4D42 then
                (let (ignored1, f2) = readLE32 f1;
                     (ignored2, f3) = readLE32 f2;
                     (ignored3, f4) = readLE32 f3;
                     (ignored4, f5) = readLE32 f4;
                     (width_out, f6) =
                        (case width_p of
                           None \<Rightarrow> (None, f5)
                         | Some old \<Rightarrow> (let (v, g) = readLE32 f5 in (Some v, g)));
                     height_out =
                        (case height_p of
                           None \<Rightarrow> None
                         | Some old \<Rightarrow>
                             (let (hh, g) = readLE32 f6
                              in Some (if sint hh < 0 then - hh else hh)))
                 in (IMAGE_SUCCESS, width_out, height_out))
              else (IMAGE_ERR_FORMAT, width_p, height_p)))"

declare alloc_loop.simps [simp del]
declare pixel_loop.simps [simp del]
declare row_loop.simps [simp del]
declare draw_loop.simps [simp del]

section \<open>Notions used in the statements\<close>

text \<open>
  The segment sequence of a handle: the canvases of the slots that are not null, in slot
  order. \<open>blits x y cs\<close> is one \<open>drawRGBBitmap\<close> call per segment, the first at \<open>(x, y)\<close>,
  each next one \<open>CANVAS_HEIGHT\<close> rows further down (in \<open>int16_t\<close> arithmetic).
\<close>

definition segments :: "GFXcanvas16 option list \<Rightarrow> GFXcanvas16 list" where
  "segments cs = map the (filter (\<lambda>p. p \<noteq> None) cs)"

fun blits :: "16 word \<Rightarrow> 16 word \<Rightarrow> GFXcanvas16 list \<Rightarrow> blit list" where
  "blits x y [] = []"
| "blits x y (c # cs) =
     DrawRGBBitmap x y (buffer c) (WIDTH c) (HEIGHT c) # blits x (y + of_nat CANVAS_HEIGHT) cs"

text \<open>
  The signature and the header fields of a file as the loader reads them, and the file
  handle after the header. \<open>le32_at bs i\<close> is the little-endian value of the four bytes of
  \<open>bs\<close> from index \<open>i\<close>.
\<close>

definition signature_of :: "8 word list \<Rightarrow> 16 word" where
  "signature_of bytes = fst (readLE16 (open_file bytes))"

definition header_of :: "8 word list \<Rightarrow> BmpHeader" where
  "header_of bytes = fst (read_header (snd (readLE16 (open_file bytes))))"

definition file_after_header :: "8 word list \<Rightarrow> File" where
  "file_after_header bytes = snd (read_header (snd (readLE16 (open_file bytes))))"

definition le32_at :: "8 word list \<Rightarrow> nat \<Rightarrow> 32 word" where
  "le32_at bs i = ucast (bs ! i) OR push_bit 8 (ucast (bs ! (i + 1)))
      OR push_bit 16 (ucast (bs ! (i + 2))) OR push_bit 24 (ucast (bs ! (i + 3)))"

text \<open>
  Test input: the 54 header bytes of a Windows BMP (data offset 54, a 40-byte DIB header,
  one plane, no compression) with the given four bytes of the width field, four bytes of
  the height field and bit depth.
\<close>

definition bmp_header :: "8 word list \<Rightarrow> 8 word list \<Rightarrow> 8 word \<Rightarrow> 8 word list" where
  "bmp_header wb hb d =
     [0x42, 0x4D, 0, 0, 0, 0, 0, 0, 0, 0, 54, 0, 0, 0, 40, 0, 0, 0] @ wb @ hb @
     [1, 0, d, 0, 0, 0, 0, 0, 0, 0, 0, 0, 0, 0, 0, 0, 0, 0, 0, 0, 0, 0, 0, 0, 0, 0, 0, 0]"

text \<open>
  What the decoder leaves unchanged in a canvas array: which slots are allocated, and
  the width, height and buffer length of each canvas. \<open>roomy\<close> holds of an array whose
  \<open>NUM_CANVAS\<close> slots are all allocated, each with a pixel capacity that is the length of
  its buffer and not zero; \<open>dest_ok\<close> adds that the write pointer is inside the buffer
  of an allocated canvas.
\<close>

definition shape :: "GFXcanvas16 option list \<Rightarrow> (16 word \<times> 16 word \<times> nat) option list" where
  "shape cs = map (map_option (\<lambda>c. (WIDTH c, HEIGHT c, length (buffer c)))) cs"

definition roomy :: "GFXcanvas16 option list \<Rightarrow> bool" where
  "roomy cs \<longleftrightarrow>
     length cs = NUM_CANVAS \<and>
     (\<forall>i<NUM_CANVAS. \<exists>c. cs ! i = Some c \<and> capacity c = length (buffer c) \<and> 0 < length (buffer c))"

definition dest_ok :: "decode_state \<Rightarrow> bool" where
  "dest_ok s \<longleftrightarrow>
     roomy (canvases s) \<and> currentCanvas s < NUM_CANVAS \<and>
     (\<exists>c. canvases s ! currentCanvas s = Some c \<and> destidx s < length (buffer c))"

text \<open>
  The 16-bit heights for which the allocation loop fills every slot: the remaining height
  reaches zero at none of the \<open>NUM_CANVAS\<close> iterations.
\<close>

definition fills_all_slots :: "16 word \<Rightarrow> bool" where
  "fills_all_slots hh \<longleftrightarrow>
     unat hh mod CANVAS_HEIGHT \<noteq> 0 \<or> NUM_CANVAS * CANVAS_HEIGHT \<le> unat hh"

text \<open>
  Test files. \<open>bmp_1x260\<close>: one pixel wide, 260 rows, bottom-up, all black (each row is
  three pixel bytes and one padding byte). \<open>bmp_1x40000\<close>: the same with 40000 rows,
  \<open>bmp_1x5\<close>: the same with 5 rows.
  \<open>one_file bytes\<close> is a partition that holds these bytes as \<open>a.bmp\<close> and nothing else;
  \<open>every_new\<close> lets every allocation succeed.
\<close>

definition bmp_1x260 :: "8 word list" where
  "bmp_1x260 = bmp_header [1, 0, 0, 0] [4, 1, 0, 0] 24 @ replicate 1040 0"

definition bmp_1x40000 :: "8 word list" where
  "bmp_1x40000 = bmp_header [1, 0, 0, 0] [0x40, 0x9C, 0, 0] 24 @ replicate 160000 0"

definition bmp_1x5 :: "8 word list" where
  "bmp_1x5 = bmp_header [1, 0, 0, 0] [5, 0, 0, 0] 24 @ replicate 20 0"

definition one_file :: "8 word list \<Rightarrow> string \<Rightarrow> 8 word list option" where
  "one_file bytes = [''a.bmp'' \<mapsto> bytes]"

definition every_new :: "nat \<Rightarrow> bool" where
  "every_new i = True"

text \<open>
  The 5-6-5 packing as the specification writes it, on 16-bit values:
  \<open>((R & 0xF8) << 8) | ((G & 0xFC) << 3) | (B >> 3)\<close>; and the packing of the three bytes
  \<open>B\<close>, \<open>G\<close>, \<open>R\<close> of a file that start at byte \<open>p\<close>.
\<close>

definition rgb565 :: "8 word \<Rightarrow> 8 word \<Rightarrow> 8 word \<Rightarrow> 16 word" where
  "rgb565 r g b =
     push_bit 8 (ucast r AND 0xF8) OR push_bit 3 (ucast g AND 0xFC) OR drop_bit 3 (ucast b)"

definition pixel_at :: "8 word list \<Rightarrow> nat \<Rightarrow> 16 word" where
  "pixel_at bytes p = rgb565 (bytes ! (p + 2)) (bytes ! (p + 1)) (bytes ! p)"

text \<open>
  The source side of the decoder state. \<open>src_inv bytes s q\<close>: the file of \<open>s\<close> holds \<open>bytes\<close>,
  and the next byte the pixel loop takes from the scratch buffer is byte \<open>q\<close> of the file:
  the unread part of the buffer is a copy of the file from \<open>q\<close> on, and the file position is
  where the next \<open>read\<close> has to continue. \<open>file_ok\<close>: a handle on \<open>bytes\<close> whose position is
  not past the end.
\<close>

definition src_inv :: "8 word list \<Rightarrow> decode_state \<Rightarrow> nat \<Rightarrow> bool" where
  "src_inv bytes s q \<longleftrightarrow>
     contents (bmp_file s) = bytes \<and> length (sdbuf s) = 3 * BUFPIXELS \<and>
     srcidx s \<le> 3 * BUFPIXELS \<and> 3 dvd srcidx s \<and>
     position (bmp_file s) = min (q + (3 * BUFPIXELS - srcidx s)) (length bytes) \<and>
     (\<forall>i. srcidx s + i < 3 * BUFPIXELS \<longrightarrow> q + i < length bytes \<longrightarrow>
          sdbuf s ! (srcidx s + i) = bytes ! (q + i))"

definition file_ok :: "8 word list \<Rightarrow> File \<Rightarrow> bool" where
  "file_ok bytes f \<longleftrightarrow> contents f = bytes \<and> position f \<le> length bytes"

text \<open>
  The destination side. \<open>pixels cs\<close> is the pixel sequence of the segments, one buffer
  after the other. \<open>dest_at s n\<close>: every slot is allocated and the write pointer of \<open>s\<close> is at
  pixel \<open>n\<close> of that sequence; at its end the canvas index is no longer below \<open>NUM_CANVAS\<close>.
\<close>

definition pixels :: "GFXcanvas16 option list \<Rightarrow> 16 word list" where
  "pixels cs = concat (map buffer (segments cs))"

definition dest_at :: "decode_state \<Rightarrow> nat \<Rightarrow> bool" where
  "dest_at s n \<longleftrightarrow>
     roomy (canvases s) \<and>
     (if n < length (pixels (canvases s)) then
        unat (currentCanvasIndex s) = currentCanvas s \<and> currentCanvas s < NUM_CANVAS \<and>
        (\<exists>c. canvases s ! currentCanvas s = Some c \<and> destidx s < length (buffer c)) \<and>
        n = length (pixels (take (currentCanvas s) (canvases s))) + destidx s
      else n = length (pixels (canvases s)) \<and> \<not> unat (currentCanvasIndex s) < NUM_CANVAS)"

text \<open>
  The place of a scanline in the file, in natural numbers, and the files for which the
  \<open>uint32_t\<close> arithmetic of the loader gives that place: positive width and height, a row
  size between three bytes per pixel and three bytes more, the whole pixel array inside
  the file, a file shorter than \<open>2^32\<close> bytes.
\<close>

definition row_pos :: "BmpHeader \<Rightarrow> 32 word \<Rightarrow> nat \<Rightarrow> nat" where
  "row_pos hdr rowSize r =
     unat (offset hdr) + (if flip hdr then unat (bmpHeight hdr) - 1 - r else r) * unat rowSize"

definition geometry :: "8 word list \<Rightarrow> BmpHeader \<Rightarrow> 32 word \<Rightarrow> bool" where
  "geometry bytes hdr rowSize \<longleftrightarrow>
     0 < sint (bmpWidth hdr) \<and> 0 < sint (bmpHeight hdr) \<and>
     3 * nat (sint (bmpWidth hdr)) \<le> unat rowSize \<and>
     unat rowSize \<le> 3 * nat (sint (bmpWidth hdr)) + 3 \<and>
     unat (offset hdr) + unat (bmpHeight hdr) * unat rowSize \<le> length bytes \<and>
     length bytes < 2 ^ 32"

text \<open>
  \<open>layout Wn Hn cs\<close>: every slot holds a canvas whose buffer is a whole number of rows of
  \<open>Wn\<close> pixels, and the slots that start inside an image of \<open>Hn\<close> rows hold
  \<open>CANVAS_HEIGHT\<close> rows, or what is left of the image.
\<close>

definition layout :: "nat \<Rightarrow> nat \<Rightarrow> GFXcanvas16 option list \<Rightarrow> bool" where
  "layout Wn Hn cs \<longleftrightarrow>
     length cs = NUM_CANVAS \<and>
     (\<forall>j<NUM_CANVAS. \<exists>c hgt. cs ! j = Some c \<and> length (buffer c) = Wn * hgt \<and>
        (CANVAS_HEIGHT * j < Hn \<longrightarrow> hgt = min CANVAS_HEIGHT (Hn - CANVAS_HEIGHT * j)))"

text \<open>
  More test files. \<open>top_down_199 rest\<close>: 199 pixels wide, height field \<open>-2\<close> (two rows, stored
  top-down), pixel data \<open>rest\<close>; a row is 597 pixel bytes and 3 padding bytes, so row 0 is at
  byte 54, its padding at 651 and row 1 at 654. \<open>bmp_199x2_red\<close> is black but for a red
  pixel at column 0 of row 1, with zero padding; \<open>bmp_199x2_pad\<close> is all black, the padding
  of row 0 being \<open>FF FF FF\<close>. \<open>bmp_65537x20\<close>: width field 65537, 20 rows, bottom-up, all
  black (a row is 196612 bytes). \<open>bmp_2x3\<close>: 2 pixels wide, 3 rows, bottom-up, a row
  being 6 pixel bytes and 2 padding bytes; the last row of the file (byte 70 on) is the top
  row of the image.
\<close>

definition top_down_199 :: "8 word list \<Rightarrow> 8 word list" where
  "top_down_199 rest = bmp_header [199, 0, 0, 0] [0xFE, 0xFF, 0xFF, 0xFF] 24 @ rest"

definition bmp_199x2_red :: "8 word list" where
  "bmp_199x2_red = top_down_199 (replicate 600 0 @ [0, 0, 0xFF] @ replicate 597 0)"

definition bmp_199x2_pad :: "8 word list" where
  "bmp_199x2_pad = top_down_199 (replicate 597 0 @ [0xFF, 0xFF, 0xFF] @ replicate 600 0)"

definition bmp_65537x20 :: "8 word list" where
  "bmp_65537x20 = bmp_header [1, 0, 1, 0] [20, 0, 0, 0] 24 @ replicate (20 * 196612) 0"

definition bmp_2x3 :: "8 word list" where
  "bmp_2x3 = bmp_header [2, 0, 0, 0] [3, 0, 0, 0] 24 @
     [0x01, 0x02, 0x03, 0x04, 0x05, 0x06, 0, 0,
      0x11, 0x12, 0x13, 0x14, 0x15, 0x16, 0, 0,
      0x10, 0x20, 0x30, 0x40, 0x50, 0x60, 0, 0]"
section \<open>Basic facts\<close>

lemma width_none: "format img = IMAGE_NONE \<Longrightarrow> width img = 0 \<and> height img = 0"
  by (simp add: width_def height_def)

section \<open>Drawing\<close>

lemma draw_loop_segments:
  "i \<le> NUM_CANVAS \<Longrightarrow> length cs = NUM_CANVAS \<Longrightarrow>
     draw_loop cs i x y = blits x y (segments (drop i cs))"
proof (induction cs i x y rule: draw_loop.induct)
  case (1 cs i x y)
  show ?case
  proof (cases "i < NUM_CANVAS")
    case False
    with 1 show ?thesis by (simp add: draw_loop.simps segments_def)
  next
    case True
    then have d: "drop i cs = cs ! i # drop (i + 1) cs"
      using 1 by (simp add: Cons_nth_drop_Suc)
    show ?thesis
    proof (cases "cs ! i")
      case None
      then show ?thesis using True 1 d by (simp add: draw_loop.simps [of cs i] segments_def)
    next
      case (Some c)
      then show ?thesis using True 1 d by (simp add: draw_loop.simps [of cs i] segments_def)
    qed
  qed
qed

lemma blits_nth:
  "k < length cs \<Longrightarrow> blits x y cs ! k =
     DrawRGBBitmap x (y + of_nat (k * CANVAS_HEIGHT))
       (buffer (cs ! k)) (WIDTH (cs ! k)) (HEIGHT (cs ! k))"
proof (induction cs arbitrary: k y)
  case Nil
  then show ?case by simp
next
  case (Cons c cs)
  then show ?case by (cases k) (simp_all add: algebra_simps)
qed

lemma length_blits: "length (blits x y cs) = length cs"
  by (induction cs arbitrary: y) simp_all

text \<open>
  Claim C9. For a handle of format \<open>IMAGE_16\<close> (its \<open>canvas\<close> array has \<open>NUM_CANVAS\<close>
  slots), \<open>draw\<close> makes one blit per allocated segment, in segment order: the \<open>k\<close>-th
  segment's whole buffer, with the segment's own width and height, at \<open>(x, y + k *
  CANVAS_HEIGHT)\<close>, whatever the height of the segments before it. For a handle of format
  \<open>IMAGE_NONE\<close> it makes no blit.
\<close>

theorem C9_draw_blits_segments_in_order:
  "length (canvas img) = NUM_CANVAS \<Longrightarrow>
   (format img = IMAGE_16 \<longrightarrow>
      length (draw img x y) = length (segments (canvas img)) \<and>
      (\<forall>k < length (segments (canvas img)).
          draw img x y ! k =
            DrawRGBBitmap x (y + of_nat (k * CANVAS_HEIGHT))
              (buffer (segments (canvas img) ! k))
              (WIDTH (segments (canvas img) ! k)) (HEIGHT (segments (canvas img) ! k)))) \<and>
   (format img = IMAGE_NONE \<longrightarrow> draw img x y = [])"
  by (simp add: draw_def draw_loop_segments length_blits blits_nth)

text \<open>
  A handle with a full segment and a short one: the second blit is 20 rows below the first.
\<close>

theorem C9_draw_witness:
  "length (canvas \<lparr>w = 2, h = 25,
       canvas = [Some (new_GFXcanvas16 2 20), Some (new_GFXcanvas16 2 5)] @ replicate 10 None,
       format = IMAGE_16\<rparr>) = NUM_CANVAS \<and>
   draw \<lparr>w = 2, h = 25,
       canvas = [Some (new_GFXcanvas16 2 20), Some (new_GFXcanvas16 2 5)] @ replicate 10 None,
       format = IMAGE_16\<rparr> 3 7 ! 1 = DrawRGBBitmap 3 27 (replicate 10 0) 2 5 \<and>
   length (draw \<lparr>w = 2, h = 25,
       canvas = [Some (new_GFXcanvas16 2 20), Some (new_GFXcanvas16 2 5)] @ replicate 10 None,
       format = IMAGE_16\<rparr> 3 7) = 2"
  using C9_draw_blits_segments_in_order
    [of "\<lparr>w = 2, h = 25,
       canvas = [Some (new_GFXcanvas16 2 20), Some (new_GFXcanvas16 2 5)] @ replicate 10 None,
       format = IMAGE_16\<rparr>" 3 7]
  by (simp add: NUM_CANVAS_def CANVAS_HEIGHT_def segments_def new_GFXcanvas16_def)

section \<open>Word arithmetic\<close>

lemma sint_small:
  "unat (x :: 16 word) < 32768 \<Longrightarrow> sint x = int (unat x)"
proof -
  assume a: "unat x < 32768"
  have lt: "uint x < 32768" unfolding uint_nat using a by linarith
  have "signed_take_bit 15 (uint x) = uint x"
  proof (rule signed_take_bit_int_eq_self)
    have "- (2 ^ 15) \<le> (0::int)" by simp
    then show "- (2 ^ 15) \<le> uint x" using uint_ge_0 [of x] by (rule order_trans)
    show "uint x < 2 ^ 15" using lt by simp
  qed
  then have "sint x = uint x" unfolding sint_uint by simp
  then show ?thesis unfolding uint_nat .
qed

lemma unat_scast_small:
  "unat (x :: 16 word) < 32768 \<Longrightarrow> unat (scast x :: 32 word) = unat x"
proof -
  assume a: "unat x < 32768"
  have "(scast x :: 32 word) = word_of_int (int (unat x))"
    using sint_small [OF a] by (subst scast_eq) simp
  also have "\<dots> = of_nat (unat x)" by simp
  finally have "unat (scast x :: 32 word) = unat (of_nat (unat x) :: 32 word)" by (rule arg_cong)
  also have "\<dots> = unat x" using a by (subst unat_of_nat) simp
  finally show ?thesis .
qed

lemma capacity_new:
  "unat cw < 32768 \<Longrightarrow> unat ch \<le> 20 \<Longrightarrow> capacity (new_GFXcanvas16 cw ch) = unat cw * unat ch"
proof -
  assume a: "unat cw < 32768" and b: "unat ch \<le> 20"
  have "unat cw * unat ch \<le> 32768 * 20" using a b by (intro mult_mono) simp_all
  then have lt: "unat (scast cw :: 32 word) * unat (scast ch :: 32 word) < 2 ^ LENGTH(32)"
    using a b by (simp add: unat_scast_small)
  have "capacity (new_GFXcanvas16 cw ch) = unat ((scast cw :: 32 word) * scast ch)"
    by (simp add: capacity_def new_GFXcanvas16_def)
  also have "\<dots> = unat (scast cw :: 32 word) * unat (scast ch :: 32 word)"
    by (rule unat_mult_lem [THEN iffD1, OF lt])
  also have "\<dots> = unat cw * unat ch"
    using a b by (simp add: unat_scast_small)
  finally show ?thesis .
qed

section \<open>Reading the header\<close>

lemma file_read_in:
  "position f < length (contents f) \<Longrightarrow>
     file_read f = (ucast (contents f ! position f), f\<lparr>position := position f + 1\<rparr>)"
  by (simp add: file_read_def)

lemma readLE32_in:
  "position f + 4 \<le> length (contents f) \<Longrightarrow>
     readLE32 f = (le32_at (contents f) (position f), f\<lparr>position := position f + 4\<rparr>)"
  by (simp add: readLE32_def file_read_in le32_at_def add.assoc numeral_3_eq_3)

lemma ucast_8_32_16_8: "(ucast (ucast (ucast (d :: 8 word) :: 32 word) :: 16 word) :: 8 word) = d"
  by (rule bit_word_eqI) (auto simp: bit_simps)

lemma read_bmp_header:
  "read_header (snd (readLE16 (open_file (bmp_header [w0, w1, w2, w3] [h0, h1, h2, h3] d @ rest)))) =
    (\<lparr>offset = 54, headerSize = 40, bmpWidth = le32_at [w0, w1, w2, w3] 0,
      bmpHeight = (if sint (le32_at [h0, h1, h2, h3] 0) < 0 then - le32_at [h0, h1, h2, h3] 0 else le32_at [h0, h1, h2, h3] 0),
      flip = (\<not> sint (le32_at [h0, h1, h2, h3] 0) < 0), planes = 1, depth = d, compression = 0\<rparr>,
     \<lparr>contents = bmp_header [w0, w1, w2, w3] [h0, h1, h2, h3] d @ rest, position = 54\<rparr>)"
  apply (simp add: bmp_header_def open_file_def readLE16_def file_read_in)
  apply (simp add: read_header_def readLE32_in readLE16_def file_read_in le32_at_def ucast_8_32_16_8)
  done

lemma signature_bmp_header [simp]:
  "signature_of (bmp_header wb hb d @ rest) = 0x4D42"
  by (simp add: signature_of_def bmp_header_def open_file_def readLE16_def file_read_in)

lemma header_of_bmp_header:
  "header_of (bmp_header [w0, w1, w2, w3] [h0, h1, h2, h3] d @ rest) =
    \<lparr>offset = 54, headerSize = 40, bmpWidth = le32_at [w0, w1, w2, w3] 0,
      bmpHeight = (if sint (le32_at [h0, h1, h2, h3] 0) < 0 then - le32_at [h0, h1, h2, h3] 0 else le32_at [h0, h1, h2, h3] 0),
      flip = (\<not> sint (le32_at [h0, h1, h2, h3] 0) < 0), planes = 1, depth = d, compression = 0\<rparr>"
  by (simp add: header_of_def read_bmp_header)

lemma file_after_bmp_header:
  "file_after_header (bmp_header [w0, w1, w2, w3] [h0, h1, h2, h3] d @ rest) =
     \<lparr>contents = bmp_header [w0, w1, w2, w3] [h0, h1, h2, h3] d @ rest, position = 54\<rparr>"
  by (simp add: file_after_header_def read_bmp_header)

lemma coreBMP_not_found:
  "fs name = None \<Longrightarrow> coreBMP fs new_ok junk name img = Inr (IMAGE_ERR_FILE_NOT_FOUND, dealloc img)"
  by (simp add: coreBMP_def)

lemma coreBMP_bad_signature:
  "fs name = Some bytes \<Longrightarrow> signature_of bytes \<noteq> 0x4D42 \<Longrightarrow>
     coreBMP fs new_ok junk name img = Inr (IMAGE_ERR_FORMAT, dealloc img)"
  by (simp add: coreBMP_def signature_of_def case_prod_beta)

lemma coreBMP_signature_ok:
  "fs name = Some bytes \<Longrightarrow> signature_of bytes = 0x4D42 \<Longrightarrow>
     coreBMP fs new_ok junk name img =
       (if planes (header_of bytes) = 1 \<and> compression (header_of bytes) = 0 \<and> depth (header_of bytes) = 24
        then load24 new_ok junk (header_of bytes)
               (rowSize_of (depth (header_of bytes)) (bmpWidth (header_of bytes)))
               (file_after_header bytes) (dealloc img)
        else Inr (IMAGE_ERR_FORMAT, dealloc img))"
  by (auto simp: coreBMP_def signature_of_def header_of_def file_after_header_def case_prod_beta Let_def)

lemma le32_small [simp]: "le32_at [a, 0, 0, 0] 0 = ucast a"
  by (simp add: le32_at_def)

lemma replicate_NUM_CANVAS:
  "replicate NUM_CANVAS x = [x, x, x, x, x, x, x, x, x, x, x, x]"
  by (simp add: NUM_CANVAS_def eval_nat_numeral)

lemma readLE16_in:
  "position f + 2 \<le> length (contents f) \<Longrightarrow>
     snd (readLE16 f) = f\<lparr>position := position f + 2\<rparr>"
  by (simp add: readLE16_def file_read_in add.assoc)

lemma bmpDimensions_not_found:
  "fs name = None \<Longrightarrow> bmpDimensions fs name wp hp = (IMAGE_ERR_FILE_NOT_FOUND, wp, hp)"
  by (simp add: bmpDimensions_def)

lemma bmpDimensions_bad_signature:
  "fs name = Some bytes \<Longrightarrow> signature_of bytes \<noteq> 0x4D42 \<Longrightarrow>
     bmpDimensions fs name wp hp = (IMAGE_ERR_FORMAT, wp, hp)"
  by (simp add: bmpDimensions_def signature_of_def case_prod_beta)

lemma bmpDimensions_status:
  "fs name = Some bytes \<Longrightarrow> signature_of bytes = 0x4D42 \<Longrightarrow>
     fst (bmpDimensions fs name wp hp) = IMAGE_SUCCESS"
  by (simp add: bmpDimensions_def signature_of_def case_prod_beta Let_def)

lemma bmpDimensions_header:
  "fs name = Some bytes \<Longrightarrow> signature_of bytes = 0x4D42 \<Longrightarrow>
     bmpDimensions fs name (Some a) (Some b) =
       (IMAGE_SUCCESS, Some (bmpWidth (header_of bytes)), Some (bmpHeight (header_of bytes)))"
  by (simp add: bmpDimensions_def signature_of_def header_of_def read_header_def
      case_prod_beta Let_def)

lemma header_fields_at:
  assumes "26 \<le> length bytes"
  shows "bmpWidth (header_of bytes) = le32_at bytes 18"
    and "bmpHeight (header_of bytes) =
           (if sint (le32_at bytes 22) < 0 then - le32_at bytes 22 else le32_at bytes 22)"
  using assms
  by (simp_all add: header_of_def read_header_def case_prod_beta Let_def readLE16_in
      readLE32_in open_file_def)

lemma sint_neg32:
  assumes "x \<noteq> (- (2 ^ 31) :: 32 word)"
  shows "sint (- x) = - sint x"
proof -
  have ge: "- (2 ^ 31) \<le> sint x" using sint_ge [of x] by simp
  have lt: "sint x < 2 ^ 31" using sint_lt [of x] by simp
  have ne: "sint x \<noteq> - (2 ^ 31)"
  proof
    assume "sint x = - (2 ^ 31)"
    then have "(word_of_int (sint x) :: 32 word) = word_of_int (- (2 ^ 31))" by simp
    then have "x = - (2 ^ 31)" by simp
    with assms show False by simp
  qed
  have "- x = word_of_int (- sint x)" by simp
  then have "sint (- x) = sint (word_of_int (- sint x) :: 32 word)" by (rule arg_cong)
  also have "\<dots> = signed_take_bit 31 (- sint x)"
    unfolding sint_sbintrunc' by simp
  also have "\<dots> = - sint x"
  proof (rule signed_take_bit_int_eq_self)
    show "- (2 ^ 31) \<le> - sint x" using lt by linarith
    show "- sint x < 2 ^ 31" using ge ne by linarith
  qed
  finally show ?thesis .
qed

lemma sint_abs32:
  "x \<noteq> - (2 ^ 31) \<Longrightarrow> sint (if sint x < 0 then - x else x :: 32 word) = \<bar>sint x\<bar>"
  by (simp add: sint_neg32)

section \<open>Results of the two entry points\<close>




lemma dealloc_new [simp]: "dealloc (SPIFFS_Image_new a b) = SPIFFS_Image_new a b"
  by (simp add: dealloc_def SPIFFS_Image_new_def)


text \<open>
  Claim C7, as amended. A file that cannot be opened gives \<open>IMAGE_ERR_FILE_NOT_FOUND\<close>
  from \<open>bmpDimensions\<close> and from \<open>loadBMP\<close>; a file whose first two bytes, read as a
  little-endian 16-bit value, are not \<open>0x4D42\<close> gives \<open>IMAGE_ERR_FORMAT\<close> from both; with a
  valid signature \<open>bmpDimensions\<close> returns \<open>IMAGE_SUCCESS\<close> whatever the rest of the header
  says, and for a file of at least 26 bytes whose height field is not the least \<open>int\<close> it
  stores the width field (bytes 18 to 21) and the absolute value of the height field (bytes
  22 to 25).
\<close>

theorem C7_open_signature_dimensions:
  "(fs name = None \<longrightarrow>
      fst (bmpDimensions fs name wp hp) = IMAGE_ERR_FILE_NOT_FOUND \<and>
      map_sum id fst (loadBMP fs new_ok junk name img) = Inr IMAGE_ERR_FILE_NOT_FOUND) \<and>
   (fs name = Some bytes \<and> signature_of bytes \<noteq> 0x4D42 \<longrightarrow>
      fst (bmpDimensions fs name wp hp) = IMAGE_ERR_FORMAT \<and>
      map_sum id fst (loadBMP fs new_ok junk name img) = Inr IMAGE_ERR_FORMAT) \<and>
   (fs name = Some bytes \<and> signature_of bytes = 0x4D42 \<longrightarrow>
      fst (bmpDimensions fs name wp hp) = IMAGE_SUCCESS \<and>
      (26 \<le> length bytes \<and> le32_at bytes 22 \<noteq> - (2 ^ 31) \<longrightarrow>
         (case bmpDimensions fs name (Some a) (Some b) of
            (st, wo, ho) \<Rightarrow>
              st = IMAGE_SUCCESS \<and> wo = Some (le32_at bytes 18) \<and>
              map_option sint ho = Some \<bar>sint (le32_at bytes 22)\<bar>)))"
  by (auto simp: bmpDimensions_not_found bmpDimensions_bad_signature bmpDimensions_status
      bmpDimensions_header loadBMP_def coreBMP_not_found coreBMP_bad_signature
      header_fields_at sint_neg32)

text \<open>
  Claim C7 as stated fails for the height field \<open>0x80000000\<close>: the height stored is negative.
\<close>

theorem C7_least_int_counterexample:
  "signature_of (bmp_header [1, 0, 0, 0] [0, 0, 0, 0x80] 24) = 0x4D42 \<and>
   bmpDimensions [''a.bmp'' \<mapsto> bmp_header [1, 0, 0, 0] [0, 0, 0, 0x80] 24] ''a.bmp'' (Some 0) (Some 0)
     = (IMAGE_SUCCESS, Some 1, Some (- (2 ^ 31))) \<and>
   sint (- (2 ^ 31) :: 32 word) < 0"
  using signature_bmp_header [of "[1, 0, 0, 0]" "[0, 0, 0, 0x80]" 24 "[]"]
    header_of_bmp_header [of 1 0 0 0 0 0 0 "0x80" 24 "[]"]
  by (simp add: bmpDimensions_header [where bytes = "bmp_header [1, 0, 0, 0] [0, 0, 0, 0x80] 24"] le32_at_def)

text \<open>
  An 8-bit file of width 3 and height \<open>-2\<close>: \<open>bmpDimensions\<close> succeeds with 3 and 2 while
  \<open>loadBMP\<close> returns \<open>IMAGE_ERR_FORMAT\<close>; a name that is not in the partition is not found.
\<close>

theorem C7_witness:
  "[''a.bmp'' \<mapsto> bmp_header [3, 0, 0, 0] [0xFE, 0xFF, 0xFF, 0xFF] 8] ''a.bmp''
      = Some (bmp_header [3, 0, 0, 0] [0xFE, 0xFF, 0xFF, 0xFF] 8) \<and>
   [''a.bmp'' \<mapsto> bmp_header [3, 0, 0, 0] [0xFE, 0xFF, 0xFF, 0xFF] 8] ''b.bmp'' = None \<and>
   signature_of (bmp_header [3, 0, 0, 0] [0xFE, 0xFF, 0xFF, 0xFF] 8) = 0x4D42 \<and>
   26 \<le> length (bmp_header [3, 0, 0, 0] [0xFE, 0xFF, 0xFF, 0xFF] 8) \<and>
   le32_at (bmp_header [3, 0, 0, 0] [0xFE, 0xFF, 0xFF, 0xFF] 8) 22 \<noteq> - (2 ^ 31) \<and>
   bmpDimensions [''a.bmp'' \<mapsto> bmp_header [3, 0, 0, 0] [0xFE, 0xFF, 0xFF, 0xFF] 8] ''a.bmp''
      (Some 0) (Some 0) = (IMAGE_SUCCESS, Some 3, Some 2) \<and>
   loadBMP [''a.bmp'' \<mapsto> bmp_header [3, 0, 0, 0] [0xFE, 0xFF, 0xFF, 0xFF] 8] (\<lambda>i. True) []
      ''a.bmp'' (SPIFFS_Image_new 0 0) = Inr (IMAGE_ERR_FORMAT, SPIFFS_Image_new 0 0) \<and>
   fst (bmpDimensions [''a.bmp'' \<mapsto> bmp_header [3, 0, 0, 0] [0xFE, 0xFF, 0xFF, 0xFF] 8] ''b.bmp''
      (Some 0) (Some 0)) = IMAGE_ERR_FILE_NOT_FOUND"
  using C7_open_signature_dimensions
    [of "[''a.bmp'' \<mapsto> bmp_header [3, 0, 0, 0] [0xFE, 0xFF, 0xFF, 0xFF] 8]" "''a.bmp''"
       "Some 0" "Some 0" "\<lambda>i. True" "[]" "SPIFFS_Image_new 0 0"
       "bmp_header [3, 0, 0, 0] [0xFE, 0xFF, 0xFF, 0xFF] 8" 0 0]
    C7_open_signature_dimensions
    [of "[''a.bmp'' \<mapsto> bmp_header [3, 0, 0, 0] [0xFE, 0xFF, 0xFF, 0xFF] 8]" "''b.bmp''"
       "Some 0" "Some 0" "\<lambda>i. True" "[]" "SPIFFS_Image_new 0 0"
       "bmp_header [3, 0, 0, 0] [0xFE, 0xFF, 0xFF, 0xFF] 8" 0 0]
    signature_bmp_header [of "[3, 0, 0, 0]" "[0xFE, 0xFF, 0xFF, 0xFF]" 8 "[]"]
    header_of_bmp_header [of 3 0 0 0 "0xFE" "0xFF" "0xFF" "0xFF" 8 "[]"]
  apply (simp add: bmpDimensions_header [where bytes = "bmp_header [3, 0, 0, 0] [0xFE, 0xFF, 0xFF, 0xFF] 8"]
      loadBMP_def coreBMP_signature_ok [where bytes = "bmp_header [3, 0, 0, 0] [0xFE, 0xFF, 0xFF, 0xFF] 8"])
  apply (simp add: le32_at_def bmp_header_def)
  done

text \<open>
  Claim C2 on a file of 40 rows when the second allocation fails: the call returns
  \<open>IMAGE_ERR_MALLOC\<close> and the format is \<open>IMAGE_NONE\<close>, but slot 0 still holds the canvas
  allocated in this call.
\<close>

theorem C2_failed_allocation_keeps_segment:
  "loadBMP [''a.bmp'' \<mapsto> bmp_header [1, 0, 0, 0] [40, 0, 0, 0] 24 @ replicate 160 0xFF]
      (\<lambda>i. i = 0) [] ''a.bmp'' (SPIFFS_Image_new 0 0)
   = Inr (IMAGE_ERR_MALLOC,
          \<lparr>w = 1, h = 40,
           canvas = [Some (new_GFXcanvas16 1 20), None, None, None, None, None, None, None,
                     None, None, None, None],
           format = IMAGE_NONE\<rparr>)"
  unfolding loadBMP_def
  apply (subst coreBMP_signature_ok [where bytes = "bmp_header [1,0,0,0] [40,0,0,0] 24 @ replicate 160 0xFF"])
    apply simp
   apply simp
  apply (simp add: header_of_bmp_header file_after_bmp_header)
  apply (simp add: load24_def dealloc_def SPIFFS_Image_new_def replicate_NUM_CANVAS)
  apply (simp add: NUM_CANVAS_def CANVAS_HEIGHT_def alloc_loop.simps)
  done

section \<open>The scanline loop keeps the canvases' shape and, with every slot allocated, never faults\<close>

lemma shape_update:
  "cs ! k = Some c \<Longrightarrow> shape (cs[k := Some (c\<lparr>buffer := (buffer c)[d := v]\<rparr>)]) = shape cs"
  by (cases "k < length cs") (simp_all add: shape_def map_update list_update_same_conv list_update_beyond)

lemma roomy_shape: "shape cs' = shape cs \<Longrightarrow> roomy cs \<Longrightarrow> roomy cs'"
proof -
  assume sh: "shape cs' = shape cs" and r: "roomy cs"
  have "length (shape cs') = length (shape cs)" using sh by simp
  then have len: "length cs' = length cs" by (simp add: shape_def)
  {
    fix i assume i: "i < NUM_CANVAS"
    then obtain c where c: "cs ! i = Some c" "capacity c = length (buffer c)" "0 < length (buffer c)"
      using r by (auto simp: roomy_def)
    have "shape cs' ! i = shape cs ! i" using sh by simp
    then have "map_option (\<lambda>c. (WIDTH c, HEIGHT c, length (buffer c))) (cs' ! i)
             = Some (WIDTH c, HEIGHT c, length (buffer c))"
      using i r len c by (simp add: shape_def roomy_def)
    then obtain c' where "cs' ! i = Some c'" "WIDTH c' = WIDTH c" "HEIGHT c' = HEIGHT c"
        "length (buffer c') = length (buffer c)"
      by auto
    then have "\<exists>c'. cs' ! i = Some c' \<and> capacity c' = length (buffer c') \<and> 0 < length (buffer c')"
      using c by (simp add: capacity_def del: length_greater_0_conv)
  }
  then show ?thesis using r len by (simp add: roomy_def)
qed

lemma store_pixel_Inr:
  assumes "store_pixel v s = Inr s'"
  shows "\<exists>c. canvases s ! currentCanvas s = Some c \<and> destidx s < length (buffer c) \<and>
     (let cs' = (canvases s)[currentCanvas s := Some (c\<lparr>buffer := (buffer c)[destidx s := v]\<rparr>)] in
      s' = s\<lparr>canvases := cs', destidx := destidx s + 1\<rparr> \<and> \<not> capacity c \<le> destidx s + 1
      \<or> s' = s\<lparr>canvases := cs', destidx := 0, currentCanvasIndex := currentCanvasIndex s + 1,
                currentCanvas := unat (currentCanvasIndex s + 1)\<rparr>
          \<and> capacity c \<le> destidx s + 1 \<and> unat (currentCanvasIndex s + 1) < NUM_CANVAS
          \<and> cs' ! unat (currentCanvasIndex s + 1) \<noteq> None
      \<or> s' = s\<lparr>canvases := cs', destidx := 0, currentCanvasIndex := currentCanvasIndex s + 1\<rparr>
          \<and> capacity c \<le> destidx s + 1 \<and> \<not> unat (currentCanvasIndex s + 1) < NUM_CANVAS)"
proof (cases "canvases s ! currentCanvas s")
  case None
  then show ?thesis using assms by (simp add: store_pixel_def)
next
  case (Some c)
  show ?thesis
  proof (cases "destidx s < length (buffer c)")
    case False
    then show ?thesis using assms Some by (simp add: store_pixel_def)
  next
    case True
    show ?thesis
      using assms Some True
      by (simp add: store_pixel_def Let_def split: if_splits option.splits)
  qed
qed

lemma store_pixel_source:
  assumes "store_pixel v s = Inr s'"
  shows "bmp_file s' = bmp_file s \<and> sdbuf s' = sdbuf s \<and> srcidx s' = srcidx s"
proof -
  from store_pixel_Inr [OF assms] obtain cs' where
    "s' = s\<lparr>canvases := cs', destidx := destidx s + 1\<rparr>
      \<or> s' = s\<lparr>canvases := cs', destidx := 0, currentCanvasIndex := currentCanvasIndex s + 1,
                currentCanvas := unat (currentCanvasIndex s + 1)\<rparr>
      \<or> s' = s\<lparr>canvases := cs', destidx := 0, currentCanvasIndex := currentCanvasIndex s + 1\<rparr>"
    unfolding Let_def by blast
  then show ?thesis by (elim disjE) simp_all
qed

lemma store_pixel_canvases:
  assumes "store_pixel v s = Inr s'"
  shows "\<exists>c. canvases s ! currentCanvas s = Some c \<and> destidx s < length (buffer c) \<and>
     canvases s' = (canvases s)[currentCanvas s := Some (c\<lparr>buffer := (buffer c)[destidx s := v]\<rparr>)]"
proof -
  from store_pixel_Inr [OF assms] obtain c where
    c: "canvases s ! currentCanvas s = Some c" "destidx s < length (buffer c)" and
    "s' = s\<lparr>canvases := (canvases s)[currentCanvas s := Some (c\<lparr>buffer := (buffer c)[destidx s := v]\<rparr>)],
             destidx := destidx s + 1\<rparr>
      \<or> s' = s\<lparr>canvases := (canvases s)[currentCanvas s := Some (c\<lparr>buffer := (buffer c)[destidx s := v]\<rparr>)],
                destidx := 0, currentCanvasIndex := currentCanvasIndex s + 1,
                currentCanvas := unat (currentCanvasIndex s + 1)\<rparr>
      \<or> s' = s\<lparr>canvases := (canvases s)[currentCanvas s := Some (c\<lparr>buffer := (buffer c)[destidx s := v]\<rparr>)],
                destidx := 0, currentCanvasIndex := currentCanvasIndex s + 1\<rparr>"
    unfolding Let_def by blast
  then have "canvases s' = (canvases s)[currentCanvas s := Some (c\<lparr>buffer := (buffer c)[destidx s := v]\<rparr>)]"
    by (elim disjE) simp_all
  with c show ?thesis by blast
qed

lemma store_pixel_shape:
  assumes "store_pixel v s = Inr s'"
  shows "shape (canvases s') = shape (canvases s)"
proof -
  from store_pixel_canvases [OF assms] obtain c where
    "canvases s ! currentCanvas s = Some c"
    "canvases s' = (canvases s)[currentCanvas s := Some (c\<lparr>buffer := (buffer c)[destidx s := v]\<rparr>)]"
    by blast
  then show ?thesis by (simp add: shape_update)
qed

lemma store_pixel_ok:
  assumes "dest_ok s"
  shows "\<exists>s'. store_pixel v s = Inr s' \<and> dest_ok s'"
proof -
  from assms obtain c where r: "roomy (canvases s)" and k: "currentCanvas s < NUM_CANVAS"
    and c: "canvases s ! currentCanvas s = Some c" and d: "destidx s < length (buffer c)"
    by (auto simp: dest_ok_def)
  have cap: "capacity c = length (buffer c)" using r k c by (auto simp: roomy_def)
  define cs' where "cs' = (canvases s)[currentCanvas s := Some (c\<lparr>buffer := (buffer c)[destidx s := v]\<rparr>)]"
  have sh: "shape cs' = shape (canvases s)" unfolding cs'_def using c by (rule shape_update)
  have r': "roomy cs'" using sh r by (rule roomy_shape)
  have cur: "cs' ! currentCanvas s = Some (c\<lparr>buffer := (buffer c)[destidx s := v]\<rparr>)"
    using r k by (simp add: cs'_def roomy_def)
  show ?thesis
  proof (cases "capacity c \<le> destidx s + 1")
    case False
    then have "store_pixel v s = Inr (s\<lparr>canvases := cs', destidx := destidx s + 1\<rparr>)"
      using c d by (simp add: store_pixel_def Let_def cs'_def)
    moreover have "dest_ok (s\<lparr>canvases := cs', destidx := destidx s + 1\<rparr>)"
      using r' k cur False cap by (simp add: dest_ok_def)
    ultimately show ?thesis by blast
  next
    case True
    show ?thesis
    proof (cases "unat (currentCanvasIndex s + 1) < NUM_CANVAS")
      case False
      then have "store_pixel v s = Inr (s\<lparr>canvases := cs', destidx := 0,
                    currentCanvasIndex := currentCanvasIndex s + 1\<rparr>)"
        using c d True by (simp add: store_pixel_def Let_def cs'_def)
      moreover have "dest_ok (s\<lparr>canvases := cs', destidx := 0,
                    currentCanvasIndex := currentCanvasIndex s + 1\<rparr>)"
        using r' k cur d by (auto simp: dest_ok_def)
      ultimately show ?thesis by blast
    next
      case idx: True
      then obtain c' where c': "cs' ! unat (currentCanvasIndex s + 1) = Some c'"
          "0 < length (buffer c')"
        using r' by (auto simp: roomy_def)
      then have "store_pixel v s = Inr (s\<lparr>canvases := cs', destidx := 0,
                    currentCanvasIndex := currentCanvasIndex s + 1,
                    currentCanvas := unat (currentCanvasIndex s + 1)\<rparr>)"
        using c d True idx by (simp add: store_pixel_def Let_def cs'_def)
      moreover have "dest_ok (s\<lparr>canvases := cs', destidx := 0,
                    currentCanvasIndex := currentCanvasIndex s + 1,
                    currentCanvas := unat (currentCanvasIndex s + 1)\<rparr>)"
        using r' idx c' by (simp add: dest_ok_def)
      ultimately show ?thesis by blast
    qed
  qed
qed

lemma load_more_dest:
  "canvases (load_more s) = canvases s \<and> destidx (load_more s) = destidx s \<and>
   currentCanvas (load_more s) = currentCanvas s \<and>
   currentCanvasIndex (load_more s) = currentCanvasIndex s"
  by (simp add: load_more_def Let_def case_prod_beta)

lemma dest_ok_cong:
  "canvases t = canvases s \<Longrightarrow> destidx t = destidx s \<Longrightarrow> currentCanvas t = currentCanvas s \<Longrightarrow>
     dest_ok t = dest_ok s"
  by (simp add: dest_ok_def)

lemma pixel_body_ok:
  assumes "dest_ok s"
  shows "\<exists>s'. pixel_body s = Inr s' \<and> dest_ok s' \<and> shape (canvases s') = shape (canvases s)"
proof -
  let ?s1 = "(load_more s)\<lparr>srcidx := srcidx (load_more s) + 3\<rparr>"
  have "dest_ok ?s1" using assms load_more_dest [of s] by (simp add: dest_ok_def)
  from store_pixel_ok [OF this] obtain s' where
    s': "store_pixel (color565 (sdbuf (load_more s) ! (srcidx (load_more s) + 2))
           (sdbuf (load_more s) ! (srcidx (load_more s) + 1))
           (sdbuf (load_more s) ! srcidx (load_more s))) ?s1 = Inr s'" "dest_ok s'"
    by blast
  have "shape (canvases s') = shape (canvases ?s1)" using s'(1) by (rule store_pixel_shape)
  then have "shape (canvases s') = shape (canvases s)" using load_more_dest [of s] by simp
  then show ?thesis using s' by (simp add: pixel_body_def Let_def)
qed

lemma pixel_loop_ok:
  "dest_ok s \<Longrightarrow>
     \<exists>s'. pixel_loop loadWidth col s = Inr s' \<and> dest_ok s' \<and> shape (canvases s') = shape (canvases s)"
proof (induction loadWidth col s rule: pixel_loop.induct)
  case (1 loadWidth col s)
  show ?case
  proof (cases "int col < loadWidth")
    case False
    then show ?thesis using 1(2) by (subst pixel_loop.simps) simp
  next
    case True
    from pixel_body_ok [OF 1(2)] obtain s1 where
      s1: "pixel_body s = Inr s1" "dest_ok s1" "shape (canvases s1) = shape (canvases s)"
      by blast
    from 1(1) [OF True s1(1) s1(2)] obtain s' where
      "pixel_loop loadWidth (col + 1) s1 = Inr s'" "dest_ok s'"
      "shape (canvases s') = shape (canvases s1)"
      by blast
    then show ?thesis using True s1 by (subst pixel_loop.simps) simp
  qed
qed

lemma seek_row_dest:
  "canvases (seek_row hdr rowSize row s) = canvases s \<and>
   destidx (seek_row hdr rowSize row s) = destidx s \<and>
   currentCanvas (seek_row hdr rowSize row s) = currentCanvas s \<and>
   currentCanvasIndex (seek_row hdr rowSize row s) = currentCanvasIndex s"
  by (simp add: seek_row_def Let_def)

lemma row_loop_ok:
  "dest_ok s \<Longrightarrow>
     \<exists>s'. row_loop hdr rowSize row s = Inr s' \<and> dest_ok s' \<and> shape (canvases s') = shape (canvases s)"
proof (induction hdr rowSize row s rule: row_loop.induct)
  case (1 hdr rowSize row s)
  show ?case
  proof (cases "unat (currentCanvasIndex s) < NUM_CANVAS \<and> int row < sint (bmpHeight hdr)")
    case False
    then have "row_loop hdr rowSize row s = Inr s" by (subst row_loop.simps) auto
    then show ?thesis using 1(2) by simp
  next
    case True
    have "dest_ok (seek_row hdr rowSize row s)"
      using 1(2) seek_row_dest [of hdr rowSize row s] by (simp add: dest_ok_def)
    from pixel_loop_ok [OF this] obtain s1 where
      s1: "pixel_loop (sint (bmpWidth hdr)) 0 (seek_row hdr rowSize row s) = Inr s1" "dest_ok s1"
        "shape (canvases s1) = shape (canvases (seek_row hdr rowSize row s))"
      by blast
    from 1(1) [OF True s1(1) s1(2)] obtain s' where
      "row_loop hdr rowSize (row + 1) s1 = Inr s'" "dest_ok s'"
      "shape (canvases s') = shape (canvases s1)"
      by blast
    then show ?thesis
      using True s1 seek_row_dest [of hdr rowSize row s] by (subst row_loop.simps) simp
  qed
qed

section \<open>The allocation loop\<close>

lemma alloc_loop_stop:
  "\<not> (ok \<and> 0 < rem \<and> i < NUM_CANVAS) \<Longrightarrow> alloc_loop new_ok bw i ok rem cs = (ok, cs)"
  by (subst alloc_loop.simps) auto

lemma alloc_loop_step:
  "0 < rem \<Longrightarrow> i < NUM_CANVAS \<Longrightarrow> new_ok i \<Longrightarrow>
     alloc_loop new_ok bw i True rem cs =
       alloc_loop new_ok bw (i + 1) True (rem - of_nat CANVAS_HEIGHT)
         (cs[i := Some (new_GFXcanvas16 (ucast bw)
                   (if of_nat CANVAS_HEIGHT < rem then of_nat CANVAS_HEIGHT else rem))])"
  by (subst alloc_loop.simps) (simp add: Let_def)


text \<open>Heights that are a multiple of the segment capacity.\<close>

lemma unat_of_nat16: "m < 65536 \<Longrightarrow> unat (of_nat m :: 16 word) = m"
  by (simp add: unat_of_nat)

lemma of_nat16_less:
  "m < n \<Longrightarrow> n < 65536 \<Longrightarrow> (of_nat m :: 16 word) < of_nat n"
  unfolding word_less_nat_alt by (simp only: unat_of_nat16)

lemma of_nat16_pos: "0 < n \<Longrightarrow> n < 65536 \<Longrightarrow> 0 < (of_nat n :: 16 word)"
  using of_nat16_less [of 0 n] by simp

lemma alloc_loop_multiple:
  "\<forall>j<NUM_CANVAS. new_ok j \<Longrightarrow> length cs = NUM_CANVAS \<Longrightarrow> i \<le> k \<Longrightarrow> i \<le> NUM_CANVAS \<Longrightarrow>
   CANVAS_HEIGHT * k < 65536 \<Longrightarrow>
     alloc_loop new_ok bw i True (of_nat (CANVAS_HEIGHT * (k - i))) cs =
       (True, take i cs
              @ replicate (min k NUM_CANVAS - i)
                  (Some (new_GFXcanvas16 (ucast bw) (of_nat CANVAS_HEIGHT)))
              @ drop (min k NUM_CANVAS) cs)"
proof (induction "min k NUM_CANVAS - i" arbitrary: i cs)
  case 0
  then have "i = k \<or> i = NUM_CANVAS" by (auto simp: min_def split: if_splits)
  then have stop: "\<not> (True \<and> 0 < (of_nat (CANVAS_HEIGHT * (k - i)) :: 16 word) \<and> i < NUM_CANVAS)"
    by auto
  have "min k NUM_CANVAS = i" using 0 by (auto simp: min_def split: if_splits)
  then show ?case using alloc_loop_stop [OF stop] by simp
next
  case (Suc n)
  then have ik: "i < k" and i12: "i < NUM_CANVAS" by (auto simp: min_def split: if_splits)
  have "CANVAS_HEIGHT * (k - i) \<le> CANVAS_HEIGHT * k" by simp
  then have b: "CANVAS_HEIGHT * (k - i) < 65536" using Suc.prems by linarith
  have b0: "0 < CANVAS_HEIGHT * (k - i)" using ik by (simp add: CANVAS_HEIGHT_def)
  have pos: "0 < (of_nat (CANVAS_HEIGHT * (k - i)) :: 16 word)"
    using b0 b by (rule of_nat16_pos)
  have hgt: "(if of_nat CANVAS_HEIGHT < (of_nat (CANVAS_HEIGHT * (k - i)) :: 16 word)
              then of_nat CANVAS_HEIGHT else of_nat (CANVAS_HEIGHT * (k - i))) = (of_nat CANVAS_HEIGHT :: 16 word)"
  proof (cases "k - i = 1")
    case True
    then show ?thesis by (simp only: mult_1_right if_cancel)
  next
    case False
    then have "CANVAS_HEIGHT < CANVAS_HEIGHT * (k - i)" using ik by (simp add: CANVAS_HEIGHT_def)
    then have "(of_nat CANVAS_HEIGHT :: 16 word) < of_nat (CANVAS_HEIGHT * (k - i))"
      using b by (rule of_nat16_less)
    then show ?thesis by (simp only: if_True)
  qed
  have rem: "(of_nat (CANVAS_HEIGHT * (k - i)) :: 16 word) - of_nat CANVAS_HEIGHT
           = of_nat (CANVAS_HEIGHT * (k - (i + 1)))"
  proof -
    have "k - i = Suc (k - (i + 1))" using ik by simp
    then have "CANVAS_HEIGHT * (k - i) = CANVAS_HEIGHT * (k - (i + 1)) + CANVAS_HEIGHT"
      by (simp only: mult_Suc_right add.commute)
    then show ?thesis by (simp only: of_nat_add add_diff_cancel_right')
  qed
  let ?X = "Some (new_GFXcanvas16 (ucast bw) (of_nat CANVAS_HEIGHT))"
  have "alloc_loop new_ok bw i True (of_nat (CANVAS_HEIGHT * (k - i))) cs =
        alloc_loop new_ok bw (i + 1) True (of_nat (CANVAS_HEIGHT * (k - (i + 1)))) (cs[i := ?X])"
    using alloc_loop_step [OF pos i12, of new_ok bw cs] Suc.prems(1) i12 hgt rem by simp
  also have "\<dots> = (True, take (i + 1) (cs[i := ?X])
              @ replicate (min k NUM_CANVAS - (i + 1)) ?X
              @ drop (min k NUM_CANVAS) (cs[i := ?X]))"
    using Suc.hyps(2) ik i12 Suc.prems
    by (intro Suc.hyps(1)) (auto simp: min_def)
  also have "take (i + 1) (cs[i := ?X]) = take i cs @ [?X]"
    using i12 Suc.prems(2) by (simp add: take_Suc_conv_app_nth)
  also have "drop (min k NUM_CANVAS) (cs[i := ?X]) = drop (min k NUM_CANVAS) cs"
    using ik i12 by (simp add: min_def)
  also have "(take i cs @ [?X]) @ replicate (min k NUM_CANVAS - (i + 1)) ?X @ drop (min k NUM_CANVAS) cs
      = take i cs @ replicate (min k NUM_CANVAS - i) ?X @ drop (min k NUM_CANVAS) cs"
  proof -
    have "i < min k NUM_CANVAS" using ik i12 by simp
    then have "min k NUM_CANVAS - i = Suc (min k NUM_CANVAS - (i + 1))"
      by linarith
    then show ?thesis by simp
  qed
  finally show ?case .
qed

text \<open>Heights for which every slot is filled.\<close>

lemma fills_all_slots_ne:
  assumes "fills_all_slots hh" "j < NUM_CANVAS"
  shows "hh \<noteq> of_nat (CANVAS_HEIGHT * j)"
proof
  assume e: "hh = of_nat (CANVAS_HEIGHT * j)"
  have "CANVAS_HEIGHT * j < 65536" using assms(2) by (simp add: NUM_CANVAS_def CANVAS_HEIGHT_def)
  then have "unat hh = CANVAS_HEIGHT * j" unfolding e by (rule unat_of_nat16)
  then show False using assms by (simp add: fills_all_slots_def NUM_CANVAS_def CANVAS_HEIGHT_def)
qed

lemma alloc_loop_full:
  assumes ok: "\<forall>j<NUM_CANVAS. new_ok j" and f: "fills_all_slots hh"
  shows "length cs = NUM_CANVAS \<Longrightarrow> i \<le> NUM_CANVAS \<Longrightarrow>
     rem = hh - of_nat (CANVAS_HEIGHT * i) \<Longrightarrow>
     \<forall>j<i. \<exists>ch. cs ! j = Some (new_GFXcanvas16 (ucast bw) ch) \<and> 0 < ch \<and> ch \<le> of_nat CANVAS_HEIGHT \<Longrightarrow>
     \<exists>cs'. alloc_loop new_ok bw i True rem cs = (True, cs') \<and> length cs' = NUM_CANVAS \<and>
        (\<forall>j<NUM_CANVAS. \<exists>ch. cs' ! j = Some (new_GFXcanvas16 (ucast bw) ch) \<and> 0 < ch \<and> ch \<le> of_nat CANVAS_HEIGHT)"
proof (induction "NUM_CANVAS - i" arbitrary: i rem cs)
  case 0
  then have "i = NUM_CANVAS" by simp
  then have "alloc_loop new_ok bw i True rem cs = (True, cs)"
    by (intro alloc_loop_stop) simp
  then show ?case using 0 \<open>i = NUM_CANVAS\<close> by simp
next
  case (Suc n)
  then have i12: "i < NUM_CANVAS" by simp
  have "rem \<noteq> 0" using fills_all_slots_ne [OF f i12] Suc.prems(3) by simp
  then have pos: "0 < rem" by (simp add: word_greater_zero_iff)
  define ch where "ch = (if of_nat CANVAS_HEIGHT < rem then of_nat CANVAS_HEIGHT else rem)"
  have ch: "0 < ch \<and> ch \<le> of_nat CANVAS_HEIGHT"
    using pos by (auto simp: ch_def CANVAS_HEIGHT_def)
  let ?cs = "cs[i := Some (new_GFXcanvas16 (ucast bw) ch)]"
  have step: "alloc_loop new_ok bw i True rem cs =
      alloc_loop new_ok bw (i + 1) True (rem - of_nat CANVAS_HEIGHT) ?cs"
    using alloc_loop_step [OF pos i12, of new_ok bw cs] ok i12 by (simp add: ch_def)
  have rem': "rem - of_nat CANVAS_HEIGHT = hh - of_nat (CANVAS_HEIGHT * (i + 1))"
    using Suc.prems(3) by simp
  have pre: "\<forall>j<i + 1. \<exists>ch. ?cs ! j = Some (new_GFXcanvas16 (ucast bw) ch) \<and> 0 < ch \<and> ch \<le> of_nat CANVAS_HEIGHT"
  proof (intro allI impI)
    fix j assume "j < i + 1"
    then consider "j < i" | "j = i" by linarith
    then show "\<exists>ch. ?cs ! j = Some (new_GFXcanvas16 (ucast bw) ch) \<and> 0 < ch \<and> ch \<le> of_nat CANVAS_HEIGHT"
    proof cases
      case 1
      then show ?thesis using Suc.prems(4) by simp
    next
      case 2
      then show ?thesis using ch i12 Suc.prems(1) by auto
    qed
  qed
  have "n = NUM_CANVAS - (i + 1)" using Suc.hyps(2) by simp
  from Suc.hyps(1) [OF this _ _ rem' pre] Suc.prems(1) i12
  show ?case unfolding step by simp
qed

lemma alloc_loop_roomy:
  assumes ok: "\<forall>j<NUM_CANVAS. new_ok j" and f: "fills_all_slots hh"
    and w: "0 < unat (ucast bw :: 16 word)" "unat (ucast bw :: 16 word) < 32768"
  shows "\<exists>cs'. alloc_loop new_ok bw 0 True hh (replicate NUM_CANVAS None) = (True, cs') \<and> roomy cs' \<and>
      (\<forall>j<NUM_CANVAS. \<exists>c. cs' ! j = Some c \<and> WIDTH c = ucast bw)"
proof -
  from alloc_loop_full [OF ok f, of "replicate NUM_CANVAS None" 0 hh bw]
  obtain cs' where a: "alloc_loop new_ok bw 0 True hh (replicate NUM_CANVAS None) = (True, cs')"
    and len: "length cs' = NUM_CANVAS"
    and all: "\<forall>j<NUM_CANVAS. \<exists>ch. cs' ! j = Some (new_GFXcanvas16 (ucast bw) ch) \<and> 0 < ch \<and> ch \<le> of_nat CANVAS_HEIGHT"
    by auto
  {
    fix j assume "j < NUM_CANVAS"
    then obtain ch where c: "cs' ! j = Some (new_GFXcanvas16 (ucast bw) ch)" "0 < ch" "ch \<le> of_nat CANVAS_HEIGHT"
      using all by blast
    have ch20: "unat ch \<le> 20" using c(3) by (simp add: word_le_nat_alt CANVAS_HEIGHT_def)
    have ch0: "0 < unat ch" using c(2) by (simp add: word_less_nat_alt)
    have cap: "capacity (new_GFXcanvas16 (ucast bw) ch) = unat (ucast bw :: 16 word) * unat ch"
      using w(2) ch20 by (rule capacity_new)
    have "\<exists>c. cs' ! j = Some c \<and> capacity c = length (buffer c) \<and> 0 < length (buffer c) \<and> WIDTH c = ucast bw"
      using c(1) cap w(1) ch0 by (simp add: new_GFXcanvas16_def)
  }
  then show ?thesis using a len unfolding roomy_def by blast
qed




text \<open>A remaining height that stays above the segment capacity to the last slot.\<close>

lemma alloc_loop_tall:
  "\<forall>j<NUM_CANVAS. new_ok j \<Longrightarrow> length cs = NUM_CANVAS \<Longrightarrow> i \<le> NUM_CANVAS \<Longrightarrow>
   CANVAS_HEIGHT * (NUM_CANVAS - i) < unat rem \<Longrightarrow>
     alloc_loop new_ok bw i True rem cs =
       (True, take i cs @ replicate (NUM_CANVAS - i)
                (Some (new_GFXcanvas16 (ucast bw) (of_nat CANVAS_HEIGHT))))"
proof (induction "NUM_CANVAS - i" arbitrary: i rem cs)
  case 0
  then have "i = NUM_CANVAS" by simp
  then have "alloc_loop new_ok bw i True rem cs = (True, cs)"
    by (intro alloc_loop_stop) simp
  then show ?case using 0 \<open>i = NUM_CANVAS\<close> by simp
next
  case (Suc n)
  then have i12: "i < NUM_CANVAS" by simp
  have u20: "unat (of_nat CANVAS_HEIGHT :: 16 word) = CANVAS_HEIGHT"
    by (rule unat_of_nat16) (simp add: CANVAS_HEIGHT_def)
  have "NUM_CANVAS - i = Suc (NUM_CANVAS - (i + 1))" using i12 by simp
  then have "CANVAS_HEIGHT * (NUM_CANVAS - i) = CANVAS_HEIGHT * (NUM_CANVAS - (i + 1)) + CANVAS_HEIGHT"
    by (simp only: mult_Suc_right add.commute)
  then have big: "CANVAS_HEIGHT * (NUM_CANVAS - (i + 1)) + CANVAS_HEIGHT < unat rem"
    using Suc.prems(4) by simp
  then have lt: "(of_nat CANVAS_HEIGHT :: 16 word) < rem"
    unfolding word_less_nat_alt u20 by linarith
  have "0 < unat rem" using big by linarith
  then have pos: "0 < rem" by (simp add: word_less_nat_alt)
  have "(of_nat CANVAS_HEIGHT :: 16 word) \<le> rem" using lt by simp
  then have "unat (rem - of_nat CANVAS_HEIGHT) = unat rem - CANVAS_HEIGHT"
    by (simp only: unat_sub u20)
  then have big': "CANVAS_HEIGHT * (NUM_CANVAS - (i + 1)) < unat (rem - of_nat CANVAS_HEIGHT)"
    using big by linarith
  let ?X = "Some (new_GFXcanvas16 (ucast bw) (of_nat CANVAS_HEIGHT))"
  have "alloc_loop new_ok bw i True rem cs =
        alloc_loop new_ok bw (i + 1) True (rem - of_nat CANVAS_HEIGHT) (cs[i := ?X])"
    using alloc_loop_step [OF pos i12, of new_ok bw cs] Suc.prems(1) i12 lt by simp
  also have "\<dots> = (True, take (i + 1) (cs[i := ?X]) @ replicate (NUM_CANVAS - (i + 1)) ?X)"
    using Suc.hyps(2) i12 Suc.prems(1,2) big'
    by (intro Suc.hyps(1)) simp_all
  also have "take (i + 1) (cs[i := ?X]) = take i cs @ [?X]"
    using i12 Suc.prems(2) by (simp add: take_Suc_conv_app_nth)
  also have "(take i cs @ [?X]) @ replicate (NUM_CANVAS - (i + 1)) ?X
      = take i cs @ replicate (NUM_CANVAS - i) ?X"
    using \<open>NUM_CANVAS - i = Suc (NUM_CANVAS - (i + 1))\<close> by simp
  finally show ?case .
qed

section \<open>The 24-bit load as a whole\<close>

lemma pixel_body_shape:
  assumes "pixel_body s = Inr s'"
  shows "shape (canvases s') = shape (canvases s)"
proof -
  have "shape (canvases s') = shape (canvases ((load_more s)\<lparr>srcidx := srcidx (load_more s) + 3\<rparr>))"
    using assms unfolding pixel_body_def Let_def by (rule store_pixel_shape)
  then show ?thesis using load_more_dest [of s] by simp
qed

lemma pixel_loop_shape:
  "pixel_loop loadWidth col s = Inr s' \<Longrightarrow> shape (canvases s') = shape (canvases s)"
proof (induction loadWidth col s rule: pixel_loop.induct)
  case (1 loadWidth col s)
  show ?case
  proof (cases "int col < loadWidth")
    case False
    then show ?thesis using 1(2) by (subst (asm) pixel_loop.simps) simp
  next
    case True
    then obtain s1 where s1: "pixel_body s = Inr s1" "pixel_loop loadWidth (col + 1) s1 = Inr s'"
      using 1(2) by (subst (asm) pixel_loop.simps) (auto split: sum.splits)
    then show ?thesis using 1(1) [OF True s1(1) s1(2)] pixel_body_shape [OF s1(1)] by simp
  qed
qed

lemma row_loop_shape:
  "row_loop hdr rowSize row s = Inr s' \<Longrightarrow> shape (canvases s') = shape (canvases s)"
proof (induction hdr rowSize row s rule: row_loop.induct)
  case (1 hdr rowSize row s)
  show ?case
  proof (cases "unat (currentCanvasIndex s) < NUM_CANVAS \<and> int row < sint (bmpHeight hdr)")
    case False
    then have "row_loop hdr rowSize row s = Inr s" by (subst row_loop.simps) auto
    then show ?thesis using 1(2) by simp
  next
    case True
    then obtain s1 where s1: "pixel_loop (sint (bmpWidth hdr)) 0 (seek_row hdr rowSize row s) = Inr s1"
        "row_loop hdr rowSize (row + 1) s1 = Inr s'"
      using 1(2) by (subst (asm) row_loop.simps) (auto split: sum.splits)
    then show ?thesis
      using 1(1) [OF True s1(1) s1(2)] pixel_loop_shape [OF s1(1)] seek_row_dest [of hdr rowSize row s]
      by simp
  qed
qed

text \<open>What a returning \<open>load24\<close> leaves in the handle.\<close>

lemma load24_Inr:
  assumes "load24 new_ok junk hdr rowSize f img = Inr (st, im)"
  shows "w im = ucast (bmpWidth hdr) \<and> h im = ucast (bmpHeight hdr) \<and>
     shape (canvas im) =
       shape (snd (alloc_loop new_ok (bmpWidth hdr) 0 True (ucast (bmpHeight hdr)) (canvas img))) \<and>
     (st = IMAGE_SUCCESS \<and> format im = IMAGE_16 \<and>
        fst (alloc_loop new_ok (bmpWidth hdr) 0 True (ucast (bmpHeight hdr)) (canvas img))
      \<or> st = IMAGE_ERR_MALLOC \<and> format im = format img \<and>
        \<not> fst (alloc_loop new_ok (bmpWidth hdr) 0 True (ucast (bmpHeight hdr)) (canvas img)) \<and>
        im = img\<lparr>w := ucast (bmpWidth hdr), h := ucast (bmpHeight hdr),
          canvas := snd (alloc_loop new_ok (bmpWidth hdr) 0 True (ucast (bmpHeight hdr)) (canvas img))\<rparr>)"
proof (cases "fst (alloc_loop new_ok (bmpWidth hdr) 0 True (ucast (bmpHeight hdr)) (canvas img))")
  case False
  then show ?thesis using assms by (auto simp: load24_def Let_def case_prod_beta)
next
  case True
  show ?thesis
  proof (cases "16 \<le> depth hdr")
    case False
    then show ?thesis using assms True
      by (auto simp: load24_def Let_def case_prod_beta split: option.splits)
  next
    case d: True
    let ?cs = "snd (alloc_loop new_ok (bmpWidth hdr) 0 True (ucast (bmpHeight hdr)) (canvas img))"
    let ?s0 = "\<lparr>bmp_file = f,
                 sdbuf = take (3 * BUFPIXELS) (junk @ replicate (3 * BUFPIXELS) 0),
                 srcidx = 3 * BUFPIXELS, destidx = 0,
                 currentCanvasIndex = 0, currentCanvas = 0, canvases = ?cs\<rparr>"
    from assms True d obtain s where
      s: "row_loop hdr rowSize 0 ?s0 = Inr s" and
      im: "im = img\<lparr>w := ucast (bmpWidth hdr), h := ucast (bmpHeight hdr), canvas := canvases s,
                 format := IMAGE_16\<rparr>" and st: "st = IMAGE_SUCCESS"
      by (auto simp: load24_def Let_def case_prod_beta split: option.splits sum.splits)
    have "shape (canvases s) = shape ?cs" using row_loop_shape [OF s] by simp
    then show ?thesis using im st True by simp
  qed
qed

lemma load24_roomy:
  assumes a: "alloc_loop new_ok (bmpWidth hdr) 0 True (ucast (bmpHeight hdr)) (canvas img) = (True, cs)"
    and r: "roomy cs"
  shows "\<exists>im. load24 new_ok junk hdr rowSize f img = Inr (IMAGE_SUCCESS, im)"
proof -
  have "0 < NUM_CANVAS" by (simp add: NUM_CANVAS_def)
  then obtain c where c: "cs ! 0 = Some c" "0 < length (buffer c)"
    using r unfolding roomy_def by blast
  let ?s0 = "\<lparr>bmp_file = f,
               sdbuf = take (3 * BUFPIXELS) (junk @ replicate (3 * BUFPIXELS) 0),
               srcidx = 3 * BUFPIXELS, destidx = 0,
               currentCanvasIndex = 0, currentCanvas = 0, canvases = cs\<rparr>"
  have "dest_ok ?s0" using r c by (simp add: dest_ok_def NUM_CANVAS_def)
  from row_loop_ok [OF this] obtain s where "row_loop hdr rowSize 0 ?s0 = Inr s" by blast
  then show ?thesis using a c by (simp add: load24_def Let_def)
qed

text \<open>The entry point on a file with a valid signature.\<close>

lemma loadBMP_header_Inr:
  assumes "fs name = Some bytes" "signature_of bytes = 0x4D42"
    and "loadBMP fs new_ok junk name img = Inr (IMAGE_SUCCESS, im)"
  shows "planes (header_of bytes) = 1 \<and> compression (header_of bytes) = 0 \<and>
     depth (header_of bytes) = 24 \<and>
     w im = ucast (bmpWidth (header_of bytes)) \<and> h im = ucast (bmpHeight (header_of bytes)) \<and>
     format im = IMAGE_16 \<and>
     fst (alloc_loop new_ok (bmpWidth (header_of bytes)) 0 True
            (ucast (bmpHeight (header_of bytes))) (replicate NUM_CANVAS None)) \<and>
     shape (canvas im) =
       shape (snd (alloc_loop new_ok (bmpWidth (header_of bytes)) 0 True
                 (ucast (bmpHeight (header_of bytes))) (replicate NUM_CANVAS None)))"
proof -
  have c: "planes (header_of bytes) = 1 \<and> compression (header_of bytes) = 0 \<and>
     depth (header_of bytes) = 24"
    using assms by (auto simp: loadBMP_def coreBMP_signature_ok split: if_splits)
  then have "load24 new_ok junk (header_of bytes)
               (rowSize_of (depth (header_of bytes)) (bmpWidth (header_of bytes)))
               (file_after_header bytes) (dealloc img) = Inr (IMAGE_SUCCESS, im)"
    using assms by (simp add: loadBMP_def coreBMP_signature_ok)
  from load24_Inr [OF this] c show ?thesis by (simp add: dealloc_def)
qed

lemma loadBMP_header_success:
  assumes "fs name = Some bytes" "signature_of bytes = 0x4D42"
    and "planes (header_of bytes) = 1" "compression (header_of bytes) = 0"
      "depth (header_of bytes) = 24"
    and ok: "\<forall>j<NUM_CANVAS. new_ok j"
    and f: "fills_all_slots (ucast (bmpHeight (header_of bytes)))"
    and wd: "0 < unat (ucast (bmpWidth (header_of bytes)) :: 16 word)"
      "unat (ucast (bmpWidth (header_of bytes)) :: 16 word) < 32768"
  shows "\<exists>im. loadBMP fs new_ok junk name img = Inr (IMAGE_SUCCESS, im)"
proof -
  from alloc_loop_roomy [OF ok f wd] obtain cs where
    a: "alloc_loop new_ok (bmpWidth (header_of bytes)) 0 True
          (ucast (bmpHeight (header_of bytes))) (replicate NUM_CANVAS None) = (True, cs)"
    and r: "roomy cs"
    by blast
  have "alloc_loop new_ok (bmpWidth (header_of bytes)) 0 True
          (ucast (bmpHeight (header_of bytes))) (canvas (dealloc img)) = (True, cs)"
    using a by (simp add: dealloc_def)
  from load24_roomy [OF this r] show ?thesis
    using assms(1-5) by (simp add: loadBMP_def coreBMP_signature_ok)
qed

lemma length_segments_shape:
  "length (segments cs) = length (filter (\<lambda>x. x \<noteq> None) (shape cs))"
  by (induction cs) (simp_all add: segments_def shape_def)

lemma segments_shape:
  "map (\<lambda>c. (WIDTH c, HEIGHT c, length (buffer c))) (segments cs)
     = map the (filter (\<lambda>x. x \<noteq> None) (shape cs))"
  by (induction cs) (auto simp: segments_def shape_def)


section \<open>Segment accounting and reported dimensions\<close>

lemma sint_ucast_32_16:
  assumes "- 32768 \<le> sint (x :: 32 word)" "sint x < 32768"
  shows "sint (ucast x :: 16 word) = sint x"
proof -
  have "(ucast x :: 16 word) = word_of_int (sint x)"
    by (rule bit_word_eqI) (simp add: bit_simps)
  then have "sint (ucast x :: 16 word) = sint (word_of_int (sint x) :: 16 word)" by (rule arg_cong)
  also have "\<dots> = signed_take_bit 15 (sint x)" unfolding sint_sbintrunc' by simp
  also have "\<dots> = sint x"
    using assms by (intro signed_take_bit_int_eq_self) simp_all
  finally show ?thesis .
qed

text \<open>
  Claim C6, as amended. After a successful \<open>loadBMP\<close>, \<open>bmpDimensions\<close> on the same file
  succeeds, and \<open>width()\<close> and \<open>height()\<close> of the handle are the low 16 bits of the width and
  height it returns; read as \<open>int16_t\<close> they are equal to them whenever the returned value
  lies between -32768 and 32767.
\<close>

theorem C6_dimensions_agree:
  assumes "fs name = Some bytes"
    and "loadBMP fs new_ok junk name img = Inr (IMAGE_SUCCESS, im)"
  shows "\<exists>W H. bmpDimensions fs name (Some a) (Some b) = (IMAGE_SUCCESS, Some W, Some H) \<and>
     width im = ucast W \<and> height im = ucast H \<and>
     (- 32768 \<le> sint W \<and> sint W < 32768 \<longrightarrow> sint (width im) = sint W) \<and>
     (- 32768 \<le> sint H \<and> sint H < 32768 \<longrightarrow> sint (height im) = sint H)"
proof -
  have sg: "signature_of bytes = 0x4D42"
  proof (rule ccontr)
    assume "signature_of bytes \<noteq> 0x4D42"
    then show False using assms by (simp add: loadBMP_def coreBMP_bad_signature)
  qed
  from loadBMP_header_Inr [where fs = fs and name = name, OF assms(1) sg assms(2)]
  have "width im = ucast (bmpWidth (header_of bytes))" "height im = ucast (bmpHeight (header_of bytes))"
    by (simp_all add: width_def height_def)
  then show ?thesis
    using bmpDimensions_header [where fs = fs and name = name and a = a and b = b, OF assms(1) sg]
    by (simp add: sint_ucast_32_16)
qed

lemma one_file_a [simp]: "one_file bytes ''a.bmp'' = Some bytes"
  by (simp add: one_file_def)

lemma one_file_other: "name \<noteq> ''a.bmp'' \<Longrightarrow> one_file bytes name = None"
  by (simp add: one_file_def)

lemma every_new_all [simp]: "\<forall>j<NUM_CANVAS. every_new j"
  by (simp add: every_new_def)

lemma header_1x260:
  "signature_of bmp_1x260 = 0x4D42"
  "header_of bmp_1x260 =
     \<lparr>offset = 54, headerSize = 40, bmpWidth = 1, bmpHeight = 260, flip = True,
      planes = 1, depth = 24, compression = 0\<rparr>"
  by (simp_all add: bmp_1x260_def header_of_bmp_header le32_at_def)

lemma header_1x40000:
  "signature_of bmp_1x40000 = 0x4D42"
  "header_of bmp_1x40000 =
     \<lparr>offset = 54, headerSize = 40, bmpWidth = 1, bmpHeight = 40000, flip = True,
      planes = 1, depth = 24, compression = 0\<rparr>"
  by (simp_all add: bmp_1x40000_def header_of_bmp_header le32_at_def)

lemma alloc_full_height:
  "CANVAS_HEIGHT * NUM_CANVAS \<le> CANVAS_HEIGHT * k \<Longrightarrow> CANVAS_HEIGHT * k < 65536 \<Longrightarrow>
   alloc_loop every_new bw 0 True (of_nat (CANVAS_HEIGHT * k)) (replicate NUM_CANVAS None) =
     (True, replicate NUM_CANVAS (Some (new_GFXcanvas16 (ucast bw) (of_nat CANVAS_HEIGHT))))"
  using alloc_loop_multiple [of every_new "replicate NUM_CANVAS None" 0 k bw]
  by (simp add: CANVAS_HEIGHT_def min_def)

lemma load_1x260:
  "\<exists>im. loadBMP (one_file bmp_1x260) every_new [] ''a.bmp'' (SPIFFS_Image_new 0 0)
          = Inr (IMAGE_SUCCESS, im) \<and>
        w im = 1 \<and> h im = 260 \<and> format im = IMAGE_16 \<and>
        shape (canvas im) = replicate NUM_CANVAS (Some (1, 20, 20))"
proof -
  have f: "fills_all_slots 260" by (simp add: fills_all_slots_def NUM_CANVAS_def CANVAS_HEIGHT_def)
  obtain im where im: "loadBMP (one_file bmp_1x260) every_new [] ''a.bmp'' (SPIFFS_Image_new 0 0)
      = Inr (IMAGE_SUCCESS, im)"
    using loadBMP_header_success [where fs = "one_file bmp_1x260" and name = "''a.bmp''"
        and bytes = bmp_1x260 and new_ok = every_new and junk = "[]"
        and img = "SPIFFS_Image_new 0 0"] f
    by (auto simp: header_1x260)
  have "alloc_loop every_new 1 0 True 260 (replicate NUM_CANVAS None) =
      (True, replicate NUM_CANVAS (Some (new_GFXcanvas16 (ucast (1 :: 32 word)) (of_nat CANVAS_HEIGHT))))"
    using alloc_full_height [of 13 1] by (simp add: CANVAS_HEIGHT_def NUM_CANVAS_def)
  then have "w im = 1 \<and> h im = 260 \<and> format im = IMAGE_16 \<and>
        shape (canvas im) = replicate NUM_CANVAS (Some (1, 20, 20))"
    using loadBMP_header_Inr [where fs = "one_file bmp_1x260" and name = "''a.bmp''"
        and bytes = bmp_1x260, OF _ _ im]
    by (simp add: header_1x260 shape_def new_GFXcanvas16_def CANVAS_HEIGHT_def)
  then show ?thesis using im by blast
qed

lemma load_1x40000:
  "\<exists>im. loadBMP (one_file bmp_1x40000) every_new [] ''a.bmp'' (SPIFFS_Image_new 0 0)
          = Inr (IMAGE_SUCCESS, im) \<and>
        w im = 1 \<and> h im = 40000 \<and> format im = IMAGE_16 \<and>
        shape (canvas im) = replicate NUM_CANVAS (Some (1, 20, 20))"
proof -
  have f: "fills_all_slots 40000" by (simp add: fills_all_slots_def NUM_CANVAS_def CANVAS_HEIGHT_def)
  obtain im where im: "loadBMP (one_file bmp_1x40000) every_new [] ''a.bmp'' (SPIFFS_Image_new 0 0)
      = Inr (IMAGE_SUCCESS, im)"
    using loadBMP_header_success [where fs = "one_file bmp_1x40000" and name = "''a.bmp''"
        and bytes = bmp_1x40000 and new_ok = every_new and junk = "[]"
        and img = "SPIFFS_Image_new 0 0"] f
    by (auto simp: header_1x40000)
  have "alloc_loop every_new 1 0 True 40000 (replicate NUM_CANVAS None) =
      (True, replicate NUM_CANVAS (Some (new_GFXcanvas16 (ucast (1 :: 32 word)) (of_nat CANVAS_HEIGHT))))"
    using alloc_full_height [of 2000 1] by (simp add: CANVAS_HEIGHT_def NUM_CANVAS_def)
  then have "w im = 1 \<and> h im = 40000 \<and> format im = IMAGE_16 \<and>
        shape (canvas im) = replicate NUM_CANVAS (Some (1, 20, 20))"
    using loadBMP_header_Inr [where fs = "one_file bmp_1x40000" and name = "''a.bmp''"
        and bytes = bmp_1x40000, OF _ _ im]
    by (simp add: header_1x40000 shape_def new_GFXcanvas16_def CANVAS_HEIGHT_def)
  then show ?thesis using im by blast
qed

text \<open>
  Claim C6 as stated fails for a height of 40000: \<open>height()\<close> reports -25536.
\<close>

theorem C6_height_40000_counterexample:
  "map_sum id (\<lambda>(st, im). (st, sint (width im), sint (height im)))
     (loadBMP (one_file bmp_1x40000) every_new [] ''a.bmp'' (SPIFFS_Image_new 0 0))
     = Inr (IMAGE_SUCCESS, 1, - 25536) \<and>
   bmpDimensions (one_file bmp_1x40000) ''a.bmp'' (Some 0) (Some 0)
     = (IMAGE_SUCCESS, Some 1, Some 40000)"
proof -
  from load_1x40000 obtain im where
    "loadBMP (one_file bmp_1x40000) every_new [] ''a.bmp'' (SPIFFS_Image_new 0 0)
          = Inr (IMAGE_SUCCESS, im)" "w im = 1" "h im = 40000" "format im = IMAGE_16"
    by blast
  then show ?thesis
    using bmpDimensions_header [where fs = "one_file bmp_1x40000" and name = "''a.bmp''"
        and bytes = bmp_1x40000 and a = 0 and b = 0]
    by (simp add: header_1x40000 width_def height_def)
qed

text \<open>
  The 1 by 260 file: both report width 1 and height 260.
\<close>

theorem C6_witness:
  "one_file bmp_1x260 ''a.bmp'' = Some bmp_1x260 \<and>
   map_sum id (\<lambda>(st, im). (st, sint (width im), sint (height im)))
     (loadBMP (one_file bmp_1x260) every_new [] ''a.bmp'' (SPIFFS_Image_new 0 0))
     = Inr (IMAGE_SUCCESS, 1, 260) \<and>
   bmpDimensions (one_file bmp_1x260) ''a.bmp'' (Some 0) (Some 0)
     = (IMAGE_SUCCESS, Some 1, Some 260)"
proof -
  from load_1x260 obtain im where
    im: "loadBMP (one_file bmp_1x260) every_new [] ''a.bmp'' (SPIFFS_Image_new 0 0)
          = Inr (IMAGE_SUCCESS, im)"
    by blast
  have b: "bmpDimensions (one_file bmp_1x260) ''a.bmp'' (Some 0) (Some 0)
     = (IMAGE_SUCCESS, Some 1, Some 260)"
    using bmpDimensions_header [where fs = "one_file bmp_1x260" and name = "''a.bmp''"
        and bytes = bmp_1x260 and a = 0 and b = 0]
    by (simp add: header_1x260)
  from C6_dimensions_agree [where fs = "one_file bmp_1x260" and name = "''a.bmp''"
      and bytes = bmp_1x260 and a = 0 and b = 0, OF _ im]
  have "sint (width im) = 1 \<and> sint (height im) = 260"
    unfolding b by simp
  then show ?thesis using im b by simp
qed

lemma header_1x5:
  "signature_of bmp_1x5 = 0x4D42"
  "header_of bmp_1x5 =
     \<lparr>offset = 54, headerSize = 40, bmpWidth = 1, bmpHeight = 5, flip = True,
      planes = 1, depth = 24, compression = 0\<rparr>"
  by (simp_all add: bmp_1x5_def header_of_bmp_header le32_at_def)

lemma alloc_height_5:
  "alloc_loop every_new 1 0 True 5 (replicate NUM_CANVAS None) =
     (True, Some (new_GFXcanvas16 1 5) # replicate 11 (Some (new_GFXcanvas16 1 20)))"
proof -
  have "alloc_loop every_new 1 0 True 5 (replicate NUM_CANVAS None) =
      alloc_loop every_new 1 (0 + 1) True (5 - of_nat CANVAS_HEIGHT)
        ((replicate NUM_CANVAS None)[0 := Some (new_GFXcanvas16 (ucast (1 :: 32 word))
             (if of_nat CANVAS_HEIGHT < (5 :: 16 word) then of_nat CANVAS_HEIGHT else 5))])"
    by (rule alloc_loop_step) (simp_all add: NUM_CANVAS_def every_new_def)
  also have "(5 :: 16 word) - of_nat CANVAS_HEIGHT = 65521" by (simp add: CANVAS_HEIGHT_def)
  also have "(if of_nat CANVAS_HEIGHT < (5 :: 16 word) then of_nat CANVAS_HEIGHT else 5) = (5 :: 16 word)"
    by (simp add: CANVAS_HEIGHT_def)
  also have "alloc_loop every_new 1 (0 + 1) True 65521
        ((replicate NUM_CANVAS None)[0 := Some (new_GFXcanvas16 (ucast (1 :: 32 word)) 5)])
      = (True, take (0 + 1) ((replicate NUM_CANVAS None)[0 := Some (new_GFXcanvas16 (ucast (1 :: 32 word)) 5)])
           @ replicate (NUM_CANVAS - (0 + 1))
                (Some (new_GFXcanvas16 (ucast (1 :: 32 word)) (of_nat CANVAS_HEIGHT))))"
    by (rule alloc_loop_tall) (simp_all add: NUM_CANVAS_def CANVAS_HEIGHT_def)
  finally show ?thesis by (simp add: replicate_NUM_CANVAS CANVAS_HEIGHT_def) (simp add: NUM_CANVAS_def)
qed

text \<open>
  Claim C1 on a file of 5 rows, every allocation succeeding: \<open>ceil(5 / 20) = 1\<close>, and the
  load returns \<open>IMAGE_SUCCESS\<close> with twelve segments, the first of 5 rows and eleven more
  of 20 rows each. The \<open>uint16_t\<close> remaining height wraps at \<open>5 - 20\<close> and is never zero
  afterwards, so the loop runs until the slots are used up.
\<close>

theorem C1_height_5_allocates_twelve:
  "map_sum id (\<lambda>(st, im). (st, map (\<lambda>c. (unat (WIDTH c), unat (HEIGHT c))) (segments (canvas im))))
     (loadBMP (one_file bmp_1x5) every_new [] ''a.bmp'' (SPIFFS_Image_new 0 0))
     = Inr (IMAGE_SUCCESS, (1, 5) # replicate 11 (1, 20)) \<and>
   bmpHeight (header_of bmp_1x5) = 5 \<and> (5 + CANVAS_HEIGHT - 1) div CANVAS_HEIGHT = 1"
proof -
  have fs: "one_file bmp_1x5 ''a.bmp'' = Some bmp_1x5" by simp
  have f: "fills_all_slots 5" by (simp add: fills_all_slots_def NUM_CANVAS_def CANVAS_HEIGHT_def)
  obtain im where im: "loadBMP (one_file bmp_1x5) every_new [] ''a.bmp'' (SPIFFS_Image_new 0 0)
      = Inr (IMAGE_SUCCESS, im)"
    using loadBMP_header_success [where fs = "one_file bmp_1x5" and name = "''a.bmp''"
        and bytes = bmp_1x5 and new_ok = every_new and junk = "[]" and img = "SPIFFS_Image_new 0 0",
        OF fs header_1x5(1)] f
    by (auto simp: header_1x5)
  have "shape (canvas im) = Some (1, 5, 5) # replicate 11 (Some (1, 20, 20))"
    using loadBMP_header_Inr [where fs = "one_file bmp_1x5" and name = "''a.bmp''"
        and bytes = bmp_1x5, OF fs header_1x5(1) im]
    by (simp add: header_1x5 alloc_height_5 shape_def new_GFXcanvas16_def)
  then have "map (\<lambda>c. (WIDTH c, HEIGHT c, length (buffer c))) (segments (canvas im))
      = (1, 5, 5) # replicate 11 (1, 20, 20)"
    by (simp add: segments_shape)
  then have "map (\<lambda>p. (unat (fst p), unat (fst (snd p))))
        (map (\<lambda>c. (WIDTH c, HEIGHT c, length (buffer c))) (segments (canvas im)))
      = map (\<lambda>p. (unat (fst p), unat (fst (snd p))))
          ((1 :: 16 word, 5 :: 16 word, 5 :: nat) # replicate 11 (1, 20, 20))"
    by (rule arg_cong)
  then have "map (\<lambda>c. (unat (WIDTH c), unat (HEIGHT c))) (segments (canvas im))
      = (1, 5) # replicate 11 (1, 20)"
    by (simp add: comp_def)
  then show ?thesis using im by (simp add: header_1x5 CANVAS_HEIGHT_def)
qed

section \<open>The invariant of the handle\<close>

lemma segments_replicate_None [simp]: "segments (replicate n None) = []"
  by (simp add: segments_def)









section \<open>The scratch buffer against the file\<close>

text \<open>
  The value the pixel loop stores is the packing of the specification, and the three bytes
  it takes from the scratch buffer are the next three bytes of the file, as long as the
  buffer was loaded from where the previous pixel ended.
\<close>

lemma color565_rgb565: "color565 r g b = rgb565 r g b"
  unfolding color565_def rgb565_def
  by (rule bit_word_eqI) (auto simp add: bit_simps dest: bit_imp_le_length)

lemma load_more_src:
  assumes "src_inv bytes s q"
  shows "src_inv bytes (load_more s) q \<and> srcidx (load_more s) < 3 * BUFPIXELS \<and>
         srcidx (load_more s) mod (3 * BUFPIXELS) = srcidx s mod (3 * BUFPIXELS)"
proof (cases "3 * BUFPIXELS \<le> srcidx s")
  case False
  then show ?thesis using assms by (simp add: load_more_def)
next
  case True
  then have e: "srcidx s = 3 * BUFPIXELS" using assms by (simp add: src_inv_def)
  have c: "contents (bmp_file s) = bytes" and l: "length (sdbuf s) = 3 * BUFPIXELS"
    and p: "position (bmp_file s) = min q (length bytes)"
    using assms e by (simp_all add: src_inv_def)
  let ?got = "take (3 * BUFPIXELS) (drop (position (bmp_file s)) bytes)"
  have lm: "load_more s = s\<lparr>bmp_file := (bmp_file s)\<lparr>position := position (bmp_file s) + length ?got\<rparr>,
       sdbuf := ?got @ drop (length ?got) (sdbuf s), srcidx := 0\<rparr>"
    using True c by (simp add: load_more_def file_read_buf_def Let_def)
  have lg: "length ?got = min (3 * BUFPIXELS) (length bytes - min q (length bytes))"
    using p by simp
  have pos: "position (bmp_file s) + length ?got = min (q + 3 * BUFPIXELS) (length bytes)"
    using lg p by (simp only:) arith
  have "src_inv bytes (load_more s) q"
    unfolding src_inv_def lm
  proof (intro conjI allI impI)
    show "position (bmp_file (s\<lparr>bmp_file := (bmp_file s)\<lparr>position := position (bmp_file s) + length ?got\<rparr>,
       sdbuf := ?got @ drop (length ?got) (sdbuf s), srcidx := 0\<rparr>))
        = min (q + (3 * BUFPIXELS - srcidx (s\<lparr>bmp_file := (bmp_file s)\<lparr>position := position (bmp_file s) + length ?got\<rparr>,
       sdbuf := ?got @ drop (length ?got) (sdbuf s), srcidx := 0\<rparr>))) (length bytes)"
      using pos by simp
  next
    fix i
    assume "srcidx (s\<lparr>bmp_file := (bmp_file s)\<lparr>position := position (bmp_file s) + length ?got\<rparr>,
       sdbuf := ?got @ drop (length ?got) (sdbuf s), srcidx := 0\<rparr>) + i < 3 * BUFPIXELS"
      and "q + i < length bytes"
    then have i: "i < 3 * BUFPIXELS" "q + i < length bytes" by simp_all
    then have pq: "position (bmp_file s) = q" using p by simp
    have "i < length ?got" using i lg by simp
    then have "(?got @ drop (length ?got) (sdbuf s)) ! i = ?got ! i" by (simp add: nth_append)
    also have "\<dots> = bytes ! (q + i)" using i pq by simp
    finally show "sdbuf (s\<lparr>bmp_file := (bmp_file s)\<lparr>position := position (bmp_file s) + length ?got\<rparr>,
       sdbuf := ?got @ drop (length ?got) (sdbuf s), srcidx := 0\<rparr>) !
         (srcidx (s\<lparr>bmp_file := (bmp_file s)\<lparr>position := position (bmp_file s) + length ?got\<rparr>,
       sdbuf := ?got @ drop (length ?got) (sdbuf s), srcidx := 0\<rparr>) + i) = bytes ! (q + i)"
      by simp
  qed (use c l lg in \<open>simp_all add: BUFPIXELS_def\<close>)
  then show ?thesis using e by (simp add: lm BUFPIXELS_def)
qed

lemma pixel_body_src:
  assumes inv: "src_inv bytes s q" and q: "q + 3 \<le> length bytes"
  defines "t \<equiv> (load_more s)\<lparr>srcidx := srcidx (load_more s) + 3\<rparr>"
  shows "pixel_body s = store_pixel (pixel_at bytes q) t"
    and "src_inv bytes t (q + 3)"
    and "srcidx t mod (3 * BUFPIXELS) = (srcidx s + 3) mod (3 * BUFPIXELS)"
    and "canvases t = canvases s \<and> destidx t = destidx s \<and> currentCanvas t = currentCanvas s \<and>
         currentCanvasIndex t = currentCanvasIndex s"
proof -
  let ?s1 = "load_more s"
  from load_more_src [OF inv] have i1: "src_inv bytes ?s1 q" and lt: "srcidx ?s1 < 3 * BUFPIXELS"
    and md: "srcidx ?s1 mod (3 * BUFPIXELS) = srcidx s mod (3 * BUFPIXELS)"
    by simp_all
  have dv: "3 dvd srcidx ?s1" using i1 by (simp add: src_inv_def)
  then obtain k where k: "srcidx ?s1 = 3 * k" by (auto simp: dvd_def)
  have le: "srcidx ?s1 + 3 \<le> 3 * BUFPIXELS" using lt k by (simp add: BUFPIXELS_def)
  have buf: "\<And>i. srcidx ?s1 + i < 3 * BUFPIXELS \<Longrightarrow> q + i < length bytes \<Longrightarrow>
      sdbuf ?s1 ! (srcidx ?s1 + i) = bytes ! (q + i)"
    using i1 by (simp add: src_inv_def)
  have b0: "sdbuf ?s1 ! srcidx ?s1 = bytes ! q" using buf [of 0] le q by simp
  have b1: "sdbuf ?s1 ! (srcidx ?s1 + 1) = bytes ! (q + 1)" using buf [of 1] le q by simp
  have b2: "sdbuf ?s1 ! (srcidx ?s1 + 2) = bytes ! (q + 2)" using buf [of 2] le q by simp
  show "pixel_body s = store_pixel (pixel_at bytes q) t"
    unfolding pixel_body_def Let_def t_def b0 b1 b2 pixel_at_def color565_rgb565 ..
  show "src_inv bytes t (q + 3)"
    unfolding src_inv_def t_def
  proof (intro conjI allI impI)
    fix i
    assume "srcidx (?s1\<lparr>srcidx := srcidx ?s1 + 3\<rparr>) + i < 3 * BUFPIXELS" and "q + 3 + i < length bytes"
    then have "srcidx ?s1 + (3 + i) < 3 * BUFPIXELS" "q + (3 + i) < length bytes" by simp_all
    from buf [OF this] show "sdbuf (?s1\<lparr>srcidx := srcidx ?s1 + 3\<rparr>) ! (srcidx (?s1\<lparr>srcidx := srcidx ?s1 + 3\<rparr>) + i)
        = bytes ! (q + 3 + i)"
      by (simp add: add.assoc)
  next
    show "position (bmp_file (?s1\<lparr>srcidx := srcidx ?s1 + 3\<rparr>)) =
        min (q + 3 + (3 * BUFPIXELS - srcidx (?s1\<lparr>srcidx := srcidx ?s1 + 3\<rparr>))) (length bytes)"
      using i1 le by (simp add: src_inv_def)
  qed (use i1 le dv in \<open>simp_all add: src_inv_def\<close>)
  show "srcidx t mod (3 * BUFPIXELS) = (srcidx s + 3) mod (3 * BUFPIXELS)"
    using md by (simp add: t_def) (metis mod_add_left_eq)
  show "canvases t = canvases s \<and> destidx t = destidx s \<and> currentCanvas t = currentCanvas s \<and>
         currentCanvasIndex t = currentCanvasIndex s"
    using load_more_dest [of s] by (simp add: t_def)
qed

lemma store_pixel_src:
  assumes "store_pixel v s = Inr s'" "src_inv bytes s q"
  shows "src_inv bytes s' q \<and> srcidx s' = srcidx s"
  using store_pixel_source [OF assms(1)] assms(2) by (simp add: src_inv_def)

section \<open>The write pointer against the linear pixel sequence\<close>

text \<open>
  With every slot allocated, storing a pixel writes the next element of the linear pixel
  sequence and moves the write pointer to the one after it.
\<close>

lemma pixels_append: "pixels (xs @ ys) = pixels xs @ pixels ys"
  by (simp add: pixels_def segments_def)

lemma pixels_Cons_Some: "pixels (Some c # ys) = buffer c @ pixels ys"
  by (simp add: pixels_def segments_def)

lemma pixels_Nil: "pixels [] = []"
  by (simp add: pixels_def segments_def)

lemma pixels_split:
  assumes "k < length cs" "cs ! k = Some c"
  shows "pixels cs = pixels (take k cs) @ buffer c @ pixels (drop (Suc k) cs)"
proof -
  have "cs = take k cs @ Some c # drop (Suc k) cs"
    using id_take_nth_drop [OF assms(1)] assms(2) by simp
  then have "pixels cs = pixels (take k cs @ Some c # drop (Suc k) cs)" by simp
  then show ?thesis by (simp only: pixels_append pixels_Cons_Some)
qed

lemma pixels_update:
  assumes "k < length cs" "cs ! k = Some c" "d < length (buffer c)"
  shows "pixels (cs[k := Some (c\<lparr>buffer := (buffer c)[d := v]\<rparr>)])
       = (pixels cs)[length (pixels (take k cs)) + d := v]"
proof -
  have "cs[k := Some (c\<lparr>buffer := (buffer c)[d := v]\<rparr>)]
      = take k cs @ Some (c\<lparr>buffer := (buffer c)[d := v]\<rparr>) # drop (Suc k) cs"
    using assms(1) by (rule upd_conv_take_nth_drop)
  then have "pixels (cs[k := Some (c\<lparr>buffer := (buffer c)[d := v]\<rparr>)])
      = pixels (take k cs) @ (buffer c)[d := v] @ pixels (drop (Suc k) cs)"
    by (simp add: pixels_append pixels_Cons_Some)
  also have "\<dots> = (pixels (take k cs) @ buffer c @ pixels (drop (Suc k) cs))[length (pixels (take k cs)) + d := v]"
    using assms(3) by (simp add: list_update_append)
  finally show ?thesis using pixels_split [OF assms(1,2)] by simp
qed

lemma pixels_nth:
  assumes "k < length cs" "cs ! k = Some c" "d < length (buffer c)"
  shows "pixels cs ! (length (pixels (take k cs)) + d) = buffer c ! d"
  using assms(3) by (simp add: pixels_split [OF assms(1,2)] nth_append)

lemma length_pixels_Suc:
  assumes "k < length cs" "cs ! k = Some c"
  shows "length (pixels (take (Suc k) cs)) = length (pixels (take k cs)) + length (buffer c)"
  using assms by (simp add: take_Suc_conv_app_nth pixels_append pixels_Cons_Some pixels_Nil)

lemma length_pixels_take_le: "length (pixels (take k cs)) \<le> length (pixels cs)"
proof -
  have "pixels cs = pixels (take k cs @ drop k cs)" by simp
  then have "pixels cs = pixels (take k cs) @ pixels (drop k cs)" by (simp only: pixels_append)
  then show ?thesis by simp
qed

lemma length_pixels_shape:
  assumes "shape cs' = shape cs"
  shows "length (pixels cs') = length (pixels cs)"
proof -
  have "map (\<lambda>c. (WIDTH c, HEIGHT c, length (buffer c))) (segments cs')
      = map (\<lambda>c. (WIDTH c, HEIGHT c, length (buffer c))) (segments cs)"
    using assms by (simp add: segments_shape)
  then have "map (\<lambda>p. snd (snd p)) (map (\<lambda>c. (WIDTH c, HEIGHT c, length (buffer c))) (segments cs'))
      = map (\<lambda>p. snd (snd p)) (map (\<lambda>c. (WIDTH c, HEIGHT c, length (buffer c))) (segments cs))"
    by simp
  then have "map (\<lambda>c. length (buffer c)) (segments cs') = map (\<lambda>c. length (buffer c)) (segments cs)"
    by (simp add: comp_def)
  then show ?thesis by (simp add: pixels_def length_concat comp_def)
qed

lemma shape_take: "shape (take k cs) = take k (shape cs)"
  by (simp add: shape_def take_map)

lemma length_pixels_take_shape:
  "shape cs' = shape cs \<Longrightarrow> length (pixels (take k cs')) = length (pixels (take k cs))"
  by (rule length_pixels_shape) (simp add: shape_take)

lemma unat_succ_8: "unat (i :: 8 word) < NUM_CANVAS \<Longrightarrow> unat (i + 1) = unat i + 1"
  by (simp add: NUM_CANVAS_def unat_word_ariths)

lemma store_pixel_at:
  assumes at: "dest_at s n" and n: "n < length (pixels (canvases s))"
  shows "\<exists>s'. store_pixel v s = Inr s' \<and> dest_at s' (n + 1) \<and>
           pixels (canvases s') = (pixels (canvases s))[n := v]"
proof -
  let ?cs = "canvases s"
  let ?k = "currentCanvas s"
  from at n obtain c where r: "roomy ?cs" and ki: "unat (currentCanvasIndex s) = ?k"
    and k: "?k < NUM_CANVAS" and c: "?cs ! ?k = Some c" and d: "destidx s < length (buffer c)"
    and nn: "n = length (pixels (take ?k ?cs)) + destidx s"
    by (auto simp: dest_at_def)
  have len: "length ?cs = NUM_CANVAS" using r by (simp add: roomy_def)
  have kl: "?k < length ?cs" using k len by simp
  have cap: "capacity c = length (buffer c)" using r k c by (auto simp: roomy_def)
  define cs' where "cs' = ?cs[?k := Some (c\<lparr>buffer := (buffer c)[destidx s := v]\<rparr>)]"
  have sh: "shape cs' = shape ?cs" unfolding cs'_def using c by (rule shape_update)
  have r': "roomy cs'" using sh r by (rule roomy_shape)
  have px: "pixels cs' = (pixels ?cs)[n := v]"
    unfolding cs'_def nn using kl c d by (rule pixels_update)
  have lpx: "length (pixels cs') = length (pixels ?cs)" using sh by (rule length_pixels_shape)
  have off: "\<And>j. length (pixels (take j cs')) = length (pixels (take j ?cs))"
    using sh by (rule length_pixels_take_shape)
  have cur: "cs' ! ?k = Some (c\<lparr>buffer := (buffer c)[destidx s := v]\<rparr>)"
    using kl by (simp add: cs'_def)
  have suc: "length (pixels (take (Suc ?k) ?cs)) = length (pixels (take ?k ?cs)) + length (buffer c)"
    using kl c by (rule length_pixels_Suc)
  have sucle: "length (pixels (take (Suc ?k) ?cs)) \<le> length (pixels ?cs)"
    by (rule length_pixels_take_le)
  have idx: "unat (currentCanvasIndex s + 1) = ?k + 1"
    using unat_succ_8 [of "currentCanvasIndex s"] ki k by simp
  show ?thesis
  proof (cases "capacity c \<le> destidx s + 1")
    case False
    then have st: "store_pixel v s = Inr (s\<lparr>canvases := cs', destidx := destidx s + 1\<rparr>)"
      using c d by (simp add: store_pixel_def Let_def cs'_def)
    have "n + 1 < length (pixels ?cs)" using False cap nn suc sucle by simp
    then have "dest_at (s\<lparr>canvases := cs', destidx := destidx s + 1\<rparr>) (n + 1)"
      using r' ki k cur False cap nn off lpx by (simp add: dest_at_def)
    then show ?thesis using st px by auto
  next
    case True
    then have full: "destidx s + 1 = length (buffer c)" using d cap by simp
    have n1: "n + 1 = length (pixels (take (Suc ?k) ?cs))" using nn suc full by simp
    show ?thesis
    proof (cases "unat (currentCanvasIndex s + 1) < NUM_CANVAS")
      case False
      then have st: "store_pixel v s = Inr (s\<lparr>canvases := cs', destidx := 0,
                    currentCanvasIndex := currentCanvasIndex s + 1\<rparr>)"
        using c d True by (simp add: store_pixel_def Let_def cs'_def)
      have "Suc ?k = length ?cs" using False idx k len by simp
      then have "n + 1 = length (pixels ?cs)" using n1 by simp
      then have "dest_at (s\<lparr>canvases := cs', destidx := 0,
                    currentCanvasIndex := currentCanvasIndex s + 1\<rparr>) (n + 1)"
        using r' False lpx by (simp add: dest_at_def)
      then show ?thesis using st px by auto
    next
      case nx: True
      then have k1: "Suc ?k < NUM_CANVAS" using idx by simp
      then obtain c' where c': "cs' ! Suc ?k = Some c'" "0 < length (buffer c')"
        using r' by (auto simp: roomy_def)
      have st: "store_pixel v s = Inr (s\<lparr>canvases := cs', destidx := 0,
                    currentCanvasIndex := currentCanvasIndex s + 1,
                    currentCanvas := unat (currentCanvasIndex s + 1)\<rparr>)"
        using c d True nx c' idx by (simp add: store_pixel_def Let_def cs'_def)
      have k1l: "Suc ?k < length cs'" using k1 r' by (simp add: roomy_def)
      have "length (pixels (take (Suc (Suc ?k)) cs')) = length (pixels (take (Suc ?k) cs')) + length (buffer c')"
        using k1l c'(1) by (rule length_pixels_Suc)
      moreover have "length (pixels (take (Suc (Suc ?k)) cs')) \<le> length (pixels cs')"
        by (rule length_pixels_take_le)
      ultimately have "n + 1 < length (pixels cs')" using n1 off [of "Suc ?k"] c'(2) by linarith
      then have "dest_at (s\<lparr>canvases := cs', destidx := 0,
                    currentCanvasIndex := currentCanvasIndex s + 1,
                    currentCanvas := unat (currentCanvasIndex s + 1)\<rparr>) (n + 1)"
        using r' idx k1 c' n1 off by (simp add: dest_at_def)
      then show ?thesis using st px by auto
    qed
  qed
qed

section \<open>One scanline\<close>

text \<open>
  A run of the pixel loop that fits into the file and into the segments writes the packed
  pixels of consecutive file bytes to consecutive places.
\<close>

lemma dest_at_cong:
  "canvases t = canvases s \<Longrightarrow> destidx t = destidx s \<Longrightarrow> currentCanvas t = currentCanvas s \<Longrightarrow>
   currentCanvasIndex t = currentCanvasIndex s \<Longrightarrow> dest_at t n = dest_at s n"
  by (simp add: dest_at_def)

lemma pixel_body_at:
  assumes inv: "src_inv bytes s q" and q: "q + 3 \<le> length bytes"
    and at: "dest_at s n" and n: "n < length (pixels (canvases s))"
  shows "\<exists>s'. pixel_body s = Inr s' \<and> src_inv bytes s' (q + 3) \<and> dest_at s' (n + 1) \<and>
      srcidx s' mod (3 * BUFPIXELS) = (srcidx s + 3) mod (3 * BUFPIXELS) \<and>
      pixels (canvases s') = (pixels (canvases s))[n := pixel_at bytes q]"
proof -
  define t where "t = (load_more s)\<lparr>srcidx := srcidx (load_more s) + 3\<rparr>"
  note pb = pixel_body_src [OF inv q, folded t_def]
  have at': "dest_at t n" using at pb(4) dest_at_cong [of t s n] by simp
  have n': "n < length (pixels (canvases t))" using n pb(4) by simp
  from store_pixel_at [OF at' n', of "pixel_at bytes q"] obtain s' where
    s': "store_pixel (pixel_at bytes q) t = Inr s'" "dest_at s' (n + 1)"
      "pixels (canvases s') = (pixels (canvases t))[n := pixel_at bytes q]"
    by blast
  from store_pixel_src [OF s'(1) pb(2)] have "src_inv bytes s' (q + 3)" "srcidx s' = srcidx t"
    by simp_all
  then show ?thesis using s' pb by simp
qed

lemma pixel_loop_at:
  "src_inv bytes s q \<Longrightarrow> dest_at s n \<Longrightarrow> m = nat loadWidth - col \<Longrightarrow>
   q + 3 * m \<le> length bytes \<Longrightarrow> n + m \<le> length (pixels (canvases s)) \<Longrightarrow>
   \<exists>s'. pixel_loop loadWidth col s = Inr s' \<and> src_inv bytes s' (q + 3 * m) \<and> dest_at s' (n + m) \<and>
      srcidx s' mod (3 * BUFPIXELS) = (srcidx s + 3 * m) mod (3 * BUFPIXELS) \<and>
      length (pixels (canvases s')) = length (pixels (canvases s)) \<and>
      (\<forall>j<m. pixels (canvases s') ! (n + j) = pixel_at bytes (q + 3 * j)) \<and>
      (\<forall>i<n. pixels (canvases s') ! i = pixels (canvases s) ! i)"
proof (induction loadWidth col s arbitrary: q n m rule: pixel_loop.induct)
  case (1 loadWidth col s)
  show ?case
  proof (cases "int col < loadWidth")
    case False
    then have "m = 0" using 1(4) by simp
    then show ?thesis using False 1(2,3) by (subst pixel_loop.simps) simp
  next
    case True
    then obtain m' where m: "m = Suc m'" "m' = nat loadWidth - (col + 1)"
      using 1(4) by (cases m) auto
    have q3: "q + 3 \<le> length bytes" using 1(5) m by simp
    have nl: "n < length (pixels (canvases s))" using 1(6) m by simp
    from pixel_body_at [OF 1(2) q3 1(3) nl] obtain s1 where
      s1: "pixel_body s = Inr s1" "src_inv bytes s1 (q + 3)" "dest_at s1 (n + 1)"
        "srcidx s1 mod (3 * BUFPIXELS) = (srcidx s + 3) mod (3 * BUFPIXELS)"
        "pixels (canvases s1) = (pixels (canvases s))[n := pixel_at bytes q]"
      by blast
    have l1: "length (pixels (canvases s1)) = length (pixels (canvases s))" using s1(5) by simp
    have a: "q + 3 + 3 * m' \<le> length bytes" using 1(5) m by simp
    have b: "n + 1 + m' \<le> length (pixels (canvases s1))" using 1(6) m l1 by simp
    from 1(1) [OF True s1(1) s1(2) s1(3) m(2) a b] obtain s' where
      s': "pixel_loop loadWidth (col + 1) s1 = Inr s'" "src_inv bytes s' (q + 3 + 3 * m')"
        "dest_at s' (n + 1 + m')"
        "srcidx s' mod (3 * BUFPIXELS) = (srcidx s1 + 3 * m') mod (3 * BUFPIXELS)"
        "length (pixels (canvases s')) = length (pixels (canvases s1))"
        "\<forall>j<m'. pixels (canvases s') ! (n + 1 + j) = pixel_at bytes (q + 3 + 3 * j)"
        "\<forall>i<n + 1. pixels (canvases s') ! i = pixels (canvases s1) ! i"
      by blast
    have run: "pixel_loop loadWidth col s = Inr s'"
      using True s1(1) s'(1) by (subst pixel_loop.simps) simp
    have md: "srcidx s' mod (3 * BUFPIXELS) = (srcidx s + 3 * m) mod (3 * BUFPIXELS)"
    proof -
      have "(srcidx s1 + 3 * m') mod (3 * BUFPIXELS) = (srcidx s1 mod (3 * BUFPIXELS) + 3 * m') mod (3 * BUFPIXELS)"
        by (simp add: mod_add_left_eq)
      also have "\<dots> = ((srcidx s + 3) mod (3 * BUFPIXELS) + 3 * m') mod (3 * BUFPIXELS)"
        by (simp only: s1(4))
      also have "\<dots> = (srcidx s + 3 + 3 * m') mod (3 * BUFPIXELS)"
        by (simp add: mod_add_left_eq)
      finally show ?thesis using s'(4) m by (simp add: add.assoc)
    qed
    have new: "\<forall>j<m. pixels (canvases s') ! (n + j) = pixel_at bytes (q + 3 * j)"
    proof (intro allI impI)
      fix j assume j: "j < m"
      show "pixels (canvases s') ! (n + j) = pixel_at bytes (q + 3 * j)"
      proof (cases j)
        case 0
        have "pixels (canvases s') ! n = pixels (canvases s1) ! n" using s'(7) by simp
        also have "\<dots> = pixel_at bytes q" using s1(5) nl by simp
        finally show ?thesis using 0 by simp
      next
        case (Suc j')
        then have "j' < m'" using j m by simp
        then have "pixels (canvases s') ! (n + 1 + j') = pixel_at bytes (q + 3 + 3 * j')"
          using s'(6) by blast
        then show ?thesis using Suc by (simp add: add.assoc)
      qed
    qed
    have old: "\<forall>i<n. pixels (canvases s') ! i = pixels (canvases s) ! i"
    proof (intro allI impI)
      fix i assume i: "i < n"
      then have "pixels (canvases s') ! i = pixels (canvases s1) ! i" using s'(7) by simp
      also have "\<dots> = pixels (canvases s) ! i" using s1(5) i by simp
      finally show "pixels (canvases s') ! i = pixels (canvases s) ! i" .
    qed
    have "src_inv bytes s' (q + 3 * m)" using s'(2) m by (simp add: add.assoc)
    moreover have "dest_at s' (n + m)" using s'(3) m by simp
    ultimately show ?thesis using run md s'(5) l1 new old by simp
  qed
qed

section \<open>The scanline loop\<close>

text \<open>
  The position of a row in \<open>uint32_t\<close> arithmetic, the seek, and the rows one after the
  other. The seek is skipped when the file is already at the row; \<open>row_no_seek\<close> shows that
  the scratch buffer is then used up, unless the file is top-down and its width is
  \<open>BUFPIXELS - 1\<close> modulo \<open>BUFPIXELS\<close>.
\<close>

lemma unat_add32: "unat a + unat b < 2 ^ 32 \<Longrightarrow> unat (a + b :: 32 word) = unat a + unat b"
  by (simp add: unat_add_lem [THEN iffD1])

lemma unat_mult32: "unat a * unat b < 2 ^ 32 \<Longrightarrow> unat (a * b :: 32 word) = unat a * unat b"
  by (simp add: unat_mult_lem [THEN iffD1])

lemma unat_of_nat32: "n < 2 ^ 32 \<Longrightarrow> unat (of_nat n :: 32 word) = n"
  by (simp add: unat_of_nat take_bit_nat_eq_self)

lemma bmpPos_unat:
  assumes r: "r < unat (bmpHeight hdr)"
    and b: "unat (offset hdr) + unat (bmpHeight hdr) * unat rowSize < 2 ^ 32"
  shows "unat (bmpPos_of hdr rowSize r) = row_pos hdr rowSize r"
proof -
  let ?H = "unat (bmpHeight hdr)"
  have H32: "?H < 2 ^ 32" using unsigned_less [of "bmpHeight hdr"] by simp
  have ur: "unat (of_nat r :: 32 word) = r" using r H32 by (simp add: unat_of_nat32)
  have le1: "(1 :: 32 word) \<le> bmpHeight hdr" using r by (simp add: word_le_nat_alt)
  have u1: "unat (bmpHeight hdr - 1) = ?H - 1" using le1 by (simp add: unat_sub)
  have le2: "(of_nat r :: 32 word) \<le> bmpHeight hdr - 1" using r ur u1 by (simp add: word_le_nat_alt)
  have u2: "unat (bmpHeight hdr - 1 - of_nat r) = ?H - 1 - r" using le2 u1 ur by (simp add: unat_sub)
  have m1: "(?H - 1 - r) * unat rowSize \<le> ?H * unat rowSize" by (simp add: mult_le_mono1)
  have m2: "r * unat rowSize \<le> ?H * unat rowSize" using r by (simp add: mult_le_mono1)
  have b1: "(?H - 1 - r) * unat rowSize < 2 ^ 32" using m1 b by linarith
  have b2: "r * unat rowSize < 2 ^ 32" using m2 b by linarith
  have p1: "unat ((bmpHeight hdr - 1 - of_nat r) * rowSize) = (?H - 1 - r) * unat rowSize"
    using unat_mult32 [of "bmpHeight hdr - 1 - of_nat r" rowSize] b1 by (simp only: u2)
  have p2: "unat (of_nat r * rowSize) = r * unat rowSize"
    using unat_mult32 [of "of_nat r" rowSize] b2 by (simp only: ur)
  have c1: "unat (offset hdr) + (?H - 1 - r) * unat rowSize < 2 ^ 32" using m1 b by linarith
  have c2: "unat (offset hdr) + r * unat rowSize < 2 ^ 32" using m2 b by linarith
  have s1: "unat (offset hdr + (bmpHeight hdr - 1 - of_nat r) * rowSize)
      = unat (offset hdr) + (?H - 1 - r) * unat rowSize"
    using unat_add32 [of "offset hdr" "(bmpHeight hdr - 1 - of_nat r) * rowSize"] c1 by (simp only: p1)
  have s2: "unat (offset hdr + of_nat r * rowSize) = unat (offset hdr) + r * unat rowSize"
    using unat_add32 [of "offset hdr" "of_nat r * rowSize"] c2 by (simp only: p2)
  show ?thesis using s1 s2 by (simp add: bmpPos_of_def row_pos_def)
qed

lemma seek_row_src:
  assumes inv: "src_inv bytes s q"
    and same: "position (bmp_file s) = unat (bmpPos_of hdr rowSize r) \<Longrightarrow> srcidx s = 3 * BUFPIXELS"
  shows "src_inv bytes (seek_row hdr rowSize r s) (unat (bmpPos_of hdr rowSize r)) \<and>
         srcidx (seek_row hdr rowSize r s) = 3 * BUFPIXELS"
proof (cases "position (bmp_file s) = unat (bmpPos_of hdr rowSize r)")
  case True
  then have "seek_row hdr rowSize r s = s" by (simp add: seek_row_def)
  moreover have "srcidx s = 3 * BUFPIXELS" using same True by simp
  moreover have "src_inv bytes s (unat (bmpPos_of hdr rowSize r))"
    using inv True \<open>srcidx s = 3 * BUFPIXELS\<close> by (simp add: src_inv_def)
  ultimately show ?thesis by simp
next
  case False
  then show ?thesis using inv by (simp add: seek_row_def Let_def src_inv_def file_seek_def)
qed

lemma row_pos_flip:
  assumes "flip hdr" "0 < r" "r < unat (bmpHeight hdr)"
  shows "row_pos hdr rowSize (r - 1) = row_pos hdr rowSize r + unat rowSize"
proof -
  have "unat (bmpHeight hdr) - 1 - (r - 1) = Suc (unat (bmpHeight hdr) - 1 - r)"
    using assms by simp
  then have "(unat (bmpHeight hdr) - 1 - (r - 1)) * unat rowSize
      = (unat (bmpHeight hdr) - 1 - r) * unat rowSize + unat rowSize"
    by (simp only: mult_Suc add.commute)
  then show ?thesis unfolding row_pos_def by (simp only: assms(1) if_True add.assoc)
qed

lemma row_pos_topdown:
  assumes "\<not> flip hdr" "0 < r"
  shows "row_pos hdr rowSize r = row_pos hdr rowSize (r - 1) + unat rowSize"
proof -
  have "r = Suc (r - 1)" using assms by simp
  then have "r * unat rowSize = (r - 1) * unat rowSize + unat rowSize"
    by (metis add.commute mult_Suc)
  then show ?thesis using assms(1) by (simp add: row_pos_def)
qed

lemma row_pos_end:
  assumes g: "geometry bytes hdr rowSize" and r: "r < unat (bmpHeight hdr)"
  shows "row_pos hdr rowSize r + unat rowSize \<le> length bytes"
proof -
  let ?H = "unat (bmpHeight hdr)"
  have "(if flip hdr then ?H - 1 - r else r) + 1 \<le> ?H" using r by (cases "flip hdr") auto
  then have "((if flip hdr then ?H - 1 - r else r) + 1) * unat rowSize \<le> ?H * unat rowSize"
    by (rule mult_le_mono1)
  then have "(if flip hdr then ?H - 1 - r else r) * unat rowSize + unat rowSize \<le> ?H * unat rowSize"
    by (simp add: add_mult_distrib)
  moreover have "unat (offset hdr) + ?H * unat rowSize \<le> length bytes"
    using g by (simp add: geometry_def)
  ultimately show ?thesis unfolding row_pos_def by linarith
qed

lemma row_no_seek:
  assumes g: "geometry bytes hdr rowSize"
    and ok: "flip hdr \<or> nat (sint (bmpWidth hdr)) mod BUFPIXELS \<noteq> BUFPIXELS - 1"
    and r: "r < unat (bmpHeight hdr)"
    and inv: "src_inv bytes s q"
    and J: "r = 0 \<and> srcidx s = 3 * BUFPIXELS \<or>
            0 < r \<and> q = row_pos hdr rowSize (r - 1) + 3 * nat (sint (bmpWidth hdr)) \<and>
            srcidx s mod (3 * BUFPIXELS) = (3 * nat (sint (bmpWidth hdr))) mod (3 * BUFPIXELS)"
    and same: "position (bmp_file s) = row_pos hdr rowSize r"
  shows "srcidx s = 3 * BUFPIXELS"
proof (cases "r = 0")
  case True
  then show ?thesis using J by simp
next
  case False
  let ?W = "nat (sint (bmpWidth hdr))"
  let ?rs = "unat rowSize"
  have r0: "0 < r" using False by simp
  have q: "q = row_pos hdr rowSize (r - 1) + 3 * ?W"
    and md: "srcidx s mod (3 * BUFPIXELS) = (3 * ?W) mod (3 * BUFPIXELS)"
    using J False by simp_all
  have W0: "0 < ?W" and lo: "3 * ?W \<le> ?rs" and hi: "?rs \<le> 3 * ?W + 3"
    using g by (simp_all add: geometry_def)
  have rs0: "0 < ?rs" using W0 lo by linarith
  have pos: "position (bmp_file s) = min (q + (3 * BUFPIXELS - srcidx s)) (length bytes)"
    and sle: "srcidx s \<le> 3 * BUFPIXELS" and dv: "3 dvd srcidx s"
    using inv by (simp_all add: src_inv_def)
  have e1: "row_pos hdr rowSize (r - 1) + ?rs \<le> length bytes"
    using row_pos_end [OF g, of "r - 1"] r by simp
  have e2: "row_pos hdr rowSize r + ?rs \<le> length bytes" using row_pos_end [OF g r] .
  show ?thesis
  proof (cases "flip hdr")
    case True
    have "row_pos hdr rowSize (r - 1) = row_pos hdr rowSize r + ?rs"
      using True r0 r by (rule row_pos_flip)
    then have "row_pos hdr rowSize r < position (bmp_file s)"
      using pos q e1 rs0 by linarith
    then show ?thesis using same by simp
  next
    case False
    have rp: "row_pos hdr rowSize r = row_pos hdr rowSize (r - 1) + ?rs"
      using False r0 by (rule row_pos_topdown)
    have "row_pos hdr rowSize (r - 1) + 3 * ?W + (3 * BUFPIXELS - srcidx s) = row_pos hdr rowSize (r - 1) + ?rs"
      using same pos q rp e2 rs0 by linarith
    then have d: "3 * BUFPIXELS - srcidx s \<le> 3" using hi by linarith
    from dv obtain k where k: "srcidx s = 3 * k" by (auto simp: dvd_def)
    have "k = 199 \<or> k = 200" using d sle k by (simp add: BUFPIXELS_def) linarith
    then show ?thesis
    proof
      assume "k = 200" then show ?thesis using k by (simp add: BUFPIXELS_def)
    next
      assume "k = 199"
      then have "(3 * ?W) mod (3 * BUFPIXELS) = 597" using md k by (simp add: BUFPIXELS_def)
      then have "3 * (?W mod BUFPIXELS) = 597" by (simp only: mult_mod_right)
      then have "?W mod BUFPIXELS = BUFPIXELS - 1" by (simp add: BUFPIXELS_def)
      then show ?thesis using ok False by simp
    qed
  qed
qed

lemma sint_unat32: "0 \<le> sint (x :: 32 word) \<Longrightarrow> sint x = int (unat x)"
proof -
  assume a: "0 \<le> sint x"
  have lt: "sint x < 2 ^ 32" using sint_lt [of x] by simp
  have "uint x = take_bit 32 (sint x)" using uint_sint [of x] by simp
  also have "\<dots> = sint x" using a lt by (rule take_bit_int_eq_self)
  finally show ?thesis unfolding uint_nat by simp
qed

lemma less_sint32: "0 \<le> sint (x :: 32 word) \<Longrightarrow> (int r < sint x) = (r < unat x)"
  by (simp only: sint_unat32 of_nat_less_iff)

lemma row_loop_at:
  "geometry bytes hdr rowSize \<Longrightarrow>
   flip hdr \<or> nat (sint (bmpWidth hdr)) mod BUFPIXELS \<noteq> BUFPIXELS - 1 \<Longrightarrow>
   W = nat (sint (bmpWidth hdr)) \<Longrightarrow>
   src_inv bytes s q \<Longrightarrow>
   (r = 0 \<and> srcidx s = 3 * BUFPIXELS \<or>
    0 < r \<and> q = row_pos hdr rowSize (r - 1) + 3 * W \<and>
    srcidx s mod (3 * BUFPIXELS) = (3 * W) mod (3 * BUFPIXELS)) \<Longrightarrow>
   dest_at s (r * W) \<Longrightarrow> length (pixels (canvases s)) = T * W \<Longrightarrow> r \<le> T \<Longrightarrow>
   \<exists>s'. row_loop hdr rowSize r s = Inr s' \<and> length (pixels (canvases s')) = T * W \<and>
      (\<forall>r' c. r \<le> r' \<and> r' < unat (bmpHeight hdr) \<and> r' < T \<and> c < W \<longrightarrow>
          pixels (canvases s') ! (r' * W + c) = pixel_at bytes (row_pos hdr rowSize r' + 3 * c)) \<and>
      (\<forall>i<r * W. pixels (canvases s') ! i = pixels (canvases s) ! i)"
proof (induction hdr rowSize r s arbitrary: q rule: row_loop.induct)
  case (1 hdr rowSize r s)
  note g = 1(2) and ok = 1(3) and W = 1(4) and inv = 1(5) and J = 1(6) and at = 1(7)
    and len = 1(8) and rT = 1(9)
  let ?H = "unat (bmpHeight hdr)"
  have W0: "0 < W" and H0: "0 < sint (bmpHeight hdr)" and lo: "3 * W \<le> unat rowSize"
    and l32: "length bytes < 2 ^ 32"
    and fit: "unat (offset hdr) + ?H * unat rowSize \<le> length bytes"
    using g W by (simp_all add: geometry_def)
  have sH: "\<And>k. (int k < sint (bmpHeight hdr)) = (k < ?H)" using H0 by (intro less_sint32) simp
  show ?case
  proof (cases "r < T \<and> r < ?H")
    case False
    have "\<not> (unat (currentCanvasIndex s) < NUM_CANVAS \<and> int r < sint (bmpHeight hdr))"
    proof (cases "r < T")
      case True
      then show ?thesis using False sH by simp
    next
      case False
      then have "r = T" using rT by simp
      then have "\<not> r * W < length (pixels (canvases s))" using len by simp
      then have "\<not> unat (currentCanvasIndex s) < NUM_CANVAS" using at by (simp add: dest_at_def)
      then show ?thesis by simp
    qed
    then have "row_loop hdr rowSize r s = Inr s" by (subst row_loop.simps) auto
    then show ?thesis using len False by auto
  next
    case True
    then have r: "r < T" "r < ?H" by simp_all
    have "r * W < T * W" using r(1) W0 by simp
    then have nl: "r * W < length (pixels (canvases s))" using len by simp
    then have "unat (currentCanvasIndex s) < NUM_CANVAS" using at by (simp add: dest_at_def)
    then have cond: "unat (currentCanvasIndex s) < NUM_CANVAS \<and> int r < sint (bmpHeight hdr)"
      using r(2) sH by simp
    have bp: "unat (bmpPos_of hdr rowSize r) = row_pos hdr rowSize r"
      using r(2) fit l32 by (intro bmpPos_unat) simp_all
    let ?s0 = "seek_row hdr rowSize r s"
    have same: "srcidx s = 3 * BUFPIXELS"
      if "position (bmp_file s) = unat (bmpPos_of hdr rowSize r)"
      using row_no_seek [OF g ok r(2) inv] J W bp that by simp
    from seek_row_src [of bytes s q hdr rowSize r, OF inv same]
    have inv0: "src_inv bytes ?s0 (row_pos hdr rowSize r)" and i0: "srcidx ?s0 = 3 * BUFPIXELS"
      using bp by simp_all
    have at0: "dest_at ?s0 (r * W)"
      using at seek_row_dest [of hdr rowSize r s] dest_at_cong [of ?s0 s "r * W"] by simp
    have cs0: "canvases ?s0 = canvases s" using seek_row_dest [of hdr rowSize r s] by simp
    have m: "W = nat (sint (bmpWidth hdr)) - 0" using W by simp
    have a: "row_pos hdr rowSize r + 3 * W \<le> length bytes"
      using row_pos_end [OF g r(2)] lo by linarith
    have "Suc r * W \<le> T * W" using r(1) by (intro mult_le_mono1) simp
    then have b: "r * W + W \<le> length (pixels (canvases ?s0))" using len cs0 by simp
    from pixel_loop_at [OF inv0 at0 m a b] obtain s1 where
      s1: "pixel_loop (sint (bmpWidth hdr)) 0 ?s0 = Inr s1"
        "src_inv bytes s1 (row_pos hdr rowSize r + 3 * W)" "dest_at s1 (r * W + W)"
        "srcidx s1 mod (3 * BUFPIXELS) = (srcidx ?s0 + 3 * W) mod (3 * BUFPIXELS)"
        "length (pixels (canvases s1)) = length (pixels (canvases ?s0))"
        "\<forall>j<W. pixels (canvases s1) ! (r * W + j) = pixel_at bytes (row_pos hdr rowSize r + 3 * j)"
        "\<forall>i<r * W. pixels (canvases s1) ! i = pixels (canvases ?s0) ! i"
      by blast
    have J1: "r + 1 = 0 \<and> srcidx s1 = 3 * BUFPIXELS \<or>
        0 < r + 1 \<and> row_pos hdr rowSize r + 3 * W = row_pos hdr rowSize (r + 1 - 1) + 3 * W \<and>
        srcidx s1 mod (3 * BUFPIXELS) = (3 * W) mod (3 * BUFPIXELS)"
      using s1(4) i0 by simp
    have "(r + 1) * W = r * W + W" by simp
    then have at1: "dest_at s1 ((r + 1) * W)" using s1(3) by (simp only:)
    have len1: "length (pixels (canvases s1)) = T * W" using s1(5) cs0 len by simp
    have rT1: "r + 1 \<le> T" using r(1) by simp
    from 1(1) [OF cond s1(1) g ok W s1(2) J1 at1 len1 rT1] obtain s' where
      s': "row_loop hdr rowSize (r + 1) s1 = Inr s'" "length (pixels (canvases s')) = T * W"
        "\<forall>r' c. r + 1 \<le> r' \<and> r' < ?H \<and> r' < T \<and> c < W \<longrightarrow>
          pixels (canvases s') ! (r' * W + c) = pixel_at bytes (row_pos hdr rowSize r' + 3 * c)"
        "\<forall>i<(r + 1) * W. pixels (canvases s') ! i = pixels (canvases s1) ! i"
      by blast
    have run: "row_loop hdr rowSize r s = Inr s'"
      using cond s1(1) s'(1) by (subst row_loop.simps) simp
    have new: "\<forall>r' c. r \<le> r' \<and> r' < ?H \<and> r' < T \<and> c < W \<longrightarrow>
          pixels (canvases s') ! (r' * W + c) = pixel_at bytes (row_pos hdr rowSize r' + 3 * c)"
    proof (intro allI impI)
      fix r' c assume h: "r \<le> r' \<and> r' < ?H \<and> r' < T \<and> c < W"
      show "pixels (canvases s') ! (r' * W + c) = pixel_at bytes (row_pos hdr rowSize r' + 3 * c)"
      proof (cases "r' = r")
        case False
        then have "r + 1 \<le> r'" using h by simp
        then show ?thesis using s'(3) h by blast
      next
        case True
        have "r * W + c < (r + 1) * W" using h by simp
        then have "pixels (canvases s') ! (r * W + c) = pixels (canvases s1) ! (r * W + c)"
          using s'(4) by blast
        also have "\<dots> = pixel_at bytes (row_pos hdr rowSize r + 3 * c)" using s1(6) h by blast
        finally show ?thesis using True by simp
      qed
    qed
    have old: "\<forall>i<r * W. pixels (canvases s') ! i = pixels (canvases s) ! i"
    proof (intro allI impI)
      fix i assume i: "i < r * W"
      then have "i < (r + 1) * W" by simp
      then have "pixels (canvases s') ! i = pixels (canvases s1) ! i" using s'(4) by blast
      also have "\<dots> = pixels (canvases s) ! i" using s1(7) i cs0 by simp
      finally show "pixels (canvases s') ! i = pixels (canvases s) ! i" .
    qed
    show ?thesis using run s'(2) new old by blast
  qed
qed

section \<open>Segment heights when every slot is filled\<close>

text \<open>
  The heights the allocation loop gives the segments of an image whose height fills every
  slot, and where a row of the image lies in them.
\<close>

lemma alloc_loop_heights:
  assumes ok: "\<forall>j<NUM_CANVAS. new_ok j" and f: "fills_all_slots hh"
  shows "length cs = NUM_CANVAS \<Longrightarrow> i \<le> NUM_CANVAS \<Longrightarrow>
     rem = hh - of_nat (CANVAS_HEIGHT * i) \<Longrightarrow>
     \<forall>j<i. \<exists>ch. cs ! j = Some (new_GFXcanvas16 (ucast bw) ch) \<and> 0 < unat ch \<and> unat ch \<le> CANVAS_HEIGHT \<and>
        (CANVAS_HEIGHT * j < unat hh \<longrightarrow> unat ch = min CANVAS_HEIGHT (unat hh - CANVAS_HEIGHT * j)) \<Longrightarrow>
     \<exists>cs'. alloc_loop new_ok bw i True rem cs = (True, cs') \<and> length cs' = NUM_CANVAS \<and>
        (\<forall>j<NUM_CANVAS. \<exists>ch. cs' ! j = Some (new_GFXcanvas16 (ucast bw) ch) \<and> 0 < unat ch \<and> unat ch \<le> CANVAS_HEIGHT \<and>
        (CANVAS_HEIGHT * j < unat hh \<longrightarrow> unat ch = min CANVAS_HEIGHT (unat hh - CANVAS_HEIGHT * j)))"
proof (induction "NUM_CANVAS - i" arbitrary: i rem cs)
  case 0
  then have "i = NUM_CANVAS" by simp
  then have "alloc_loop new_ok bw i True rem cs = (True, cs)"
    by (intro alloc_loop_stop) simp
  then show ?case using 0 \<open>i = NUM_CANVAS\<close> by simp
next
  case (Suc n)
  then have i12: "i < NUM_CANVAS" by simp
  have "rem \<noteq> 0" using fills_all_slots_ne [OF f i12] Suc.prems(3) by simp
  then have pos: "0 < rem" by (simp add: word_greater_zero_iff)
  define ch where "ch = (if of_nat CANVAS_HEIGHT < rem then of_nat CANVAS_HEIGHT else rem)"
  have u20: "unat (of_nat CANVAS_HEIGHT :: 16 word) = CANVAS_HEIGHT"
    by (rule unat_of_nat16) (simp add: CANVAS_HEIGHT_def)
  have uch: "unat ch = min CANVAS_HEIGHT (unat rem)"
    unfolding ch_def by (simp add: word_less_nat_alt u20 min_def)
  have rpos: "0 < unat rem" using pos by (simp add: word_less_nat_alt)
  have ch: "0 < unat ch \<and> unat ch \<le> CANVAS_HEIGHT"
    using rpos uch by (simp add: CANVAS_HEIGHT_def)
  have exact: "unat ch = min CANVAS_HEIGHT (unat hh - CANVAS_HEIGHT * i)" if lt: "CANVAS_HEIGHT * i < unat hh"
  proof -
    have b: "CANVAS_HEIGHT * i < 65536" using i12 by (simp add: NUM_CANVAS_def CANVAS_HEIGHT_def)
    have ui: "unat (of_nat (CANVAS_HEIGHT * i) :: 16 word) = CANVAS_HEIGHT * i"
      using b by (rule unat_of_nat16)
    have "(of_nat (CANVAS_HEIGHT * i) :: 16 word) \<le> hh"
      unfolding word_le_nat_alt ui using lt by simp
    then have "unat rem = unat hh - CANVAS_HEIGHT * i"
      unfolding Suc.prems(3) by (simp only: unat_sub ui)
    then show ?thesis using uch by simp
  qed
  let ?cs = "cs[i := Some (new_GFXcanvas16 (ucast bw) ch)]"
  have step: "alloc_loop new_ok bw i True rem cs =
      alloc_loop new_ok bw (i + 1) True (rem - of_nat CANVAS_HEIGHT) ?cs"
    using alloc_loop_step [OF pos i12, of new_ok bw cs] ok i12 by (simp add: ch_def)
  have rem': "rem - of_nat CANVAS_HEIGHT = hh - of_nat (CANVAS_HEIGHT * (i + 1))"
    using Suc.prems(3) by simp
  have pre: "\<forall>j<i + 1. \<exists>ch. ?cs ! j = Some (new_GFXcanvas16 (ucast bw) ch) \<and> 0 < unat ch \<and> unat ch \<le> CANVAS_HEIGHT \<and>
        (CANVAS_HEIGHT * j < unat hh \<longrightarrow> unat ch = min CANVAS_HEIGHT (unat hh - CANVAS_HEIGHT * j))"
  proof (intro allI impI)
    fix j assume "j < i + 1"
    then consider "j < i" | "j = i" by linarith
    then show "\<exists>ch. ?cs ! j = Some (new_GFXcanvas16 (ucast bw) ch) \<and> 0 < unat ch \<and> unat ch \<le> CANVAS_HEIGHT \<and>
        (CANVAS_HEIGHT * j < unat hh \<longrightarrow> unat ch = min CANVAS_HEIGHT (unat hh - CANVAS_HEIGHT * j))"
    proof cases
      case 1
      then show ?thesis using Suc.prems(4) by simp
    next
      case 2
      have "?cs ! i = Some (new_GFXcanvas16 (ucast bw) ch)" using i12 Suc.prems(1) by simp
      then show ?thesis using ch exact 2 by blast
    qed
  qed
  have "n = NUM_CANVAS - (i + 1)" using Suc.hyps(2) by simp
  from Suc.hyps(1) [OF this _ _ rem' pre] Suc.prems(1) i12
  show ?case unfolding step by simp
qed

lemma alloc_loop_layout:
  assumes ok: "\<forall>j<NUM_CANVAS. new_ok j" and f: "fills_all_slots hh"
    and w: "0 < unat (ucast bw :: 16 word)" "unat (ucast bw :: 16 word) < 32768"
  shows "\<exists>cs'. alloc_loop new_ok bw 0 True hh (replicate NUM_CANVAS None) = (True, cs') \<and> roomy cs' \<and>
      layout (unat (ucast bw :: 16 word)) (unat hh) cs'"
proof -
  from alloc_loop_heights [OF ok f, of "replicate NUM_CANVAS None" 0 hh bw]
  obtain cs' where a: "alloc_loop new_ok bw 0 True hh (replicate NUM_CANVAS None) = (True, cs')"
    and len: "length cs' = NUM_CANVAS"
    and all: "\<forall>j<NUM_CANVAS. \<exists>ch. cs' ! j = Some (new_GFXcanvas16 (ucast bw) ch) \<and> 0 < unat ch \<and> unat ch \<le> CANVAS_HEIGHT \<and>
        (CANVAS_HEIGHT * j < unat hh \<longrightarrow> unat ch = min CANVAS_HEIGHT (unat hh - CANVAS_HEIGHT * j))"
    by auto
  {
    fix j assume "j < NUM_CANVAS"
    then obtain ch where c: "cs' ! j = Some (new_GFXcanvas16 (ucast bw) ch)" "0 < unat ch"
        "unat ch \<le> CANVAS_HEIGHT"
        "CANVAS_HEIGHT * j < unat hh \<longrightarrow> unat ch = min CANVAS_HEIGHT (unat hh - CANVAS_HEIGHT * j)"
      using all by blast
    have ch20: "unat ch \<le> 20" using c(3) by (simp add: CANVAS_HEIGHT_def)
    have cap: "capacity (new_GFXcanvas16 (ucast bw) ch) = unat (ucast bw :: 16 word) * unat ch"
      using w(2) ch20 by (rule capacity_new)
    have lb: "length (buffer (new_GFXcanvas16 (ucast bw) ch)) = unat (ucast bw :: 16 word) * unat ch"
      by (simp add: new_GFXcanvas16_def)
    have "0 < unat (ucast bw :: 16 word) * unat ch" using w(1) c(2) by simp
    then have "(\<exists>c. cs' ! j = Some c \<and> capacity c = length (buffer c) \<and> 0 < length (buffer c)) \<and>
       (\<exists>c hgt. cs' ! j = Some c \<and> length (buffer c) = unat (ucast bw :: 16 word) * hgt \<and>
        (CANVAS_HEIGHT * j < unat hh \<longrightarrow> hgt = min CANVAS_HEIGHT (unat hh - CANVAS_HEIGHT * j)))"
      using c(1,4) cap lb by auto
  }
  then show ?thesis using a len unfolding roomy_def layout_def by blast
qed

lemma layout_shape:
  assumes sh: "shape cs' = shape cs" and l: "layout Wn Hn cs"
  shows "layout Wn Hn cs'"
proof -
  have "length (shape cs') = length (shape cs)" using sh by simp
  then have len: "length cs' = length cs" by (simp add: shape_def)
  have n: "length cs = NUM_CANVAS" using l by (simp add: layout_def)
  {
    fix j assume j: "j < NUM_CANVAS"
    then obtain c hgt where c: "cs ! j = Some c" "length (buffer c) = Wn * hgt"
        "CANVAS_HEIGHT * j < Hn \<longrightarrow> hgt = min CANVAS_HEIGHT (Hn - CANVAS_HEIGHT * j)"
      using l unfolding layout_def by blast
    have "shape cs' ! j = shape cs ! j" using sh by simp
    then have "map_option (\<lambda>c. (WIDTH c, HEIGHT c, length (buffer c))) (cs' ! j)
             = Some (WIDTH c, HEIGHT c, length (buffer c))"
      using j n len c by (simp add: shape_def)
    then obtain c' where "cs' ! j = Some c'" "length (buffer c') = length (buffer c)"
      by auto
    then have "\<exists>c hgt. cs' ! j = Some c \<and> length (buffer c) = Wn * hgt \<and>
        (CANVAS_HEIGHT * j < Hn \<longrightarrow> hgt = min CANVAS_HEIGHT (Hn - CANVAS_HEIGHT * j))"
      using c by auto
  }
  then show ?thesis using n len unfolding layout_def by simp
qed

lemma pixels_Cons_None: "pixels (None # ys) = pixels ys"
  by (simp add: pixels_def segments_def)

lemma dvd_length_pixels:
  "\<forall>x \<in> set cs. \<forall>c. x = Some c \<longrightarrow> Wn dvd length (buffer c) \<Longrightarrow> Wn dvd length (pixels cs)"
proof (induction cs)
  case Nil
  then show ?case by (simp add: pixels_Nil)
next
  case (Cons x cs)
  then have ih: "Wn dvd length (pixels cs)" by simp
  show ?case
  proof (cases x)
    case None
    then show ?thesis using ih by (simp add: pixels_Cons_None)
  next
    case (Some c)
    then have "Wn dvd length (buffer c)" using Cons.prems by simp
    then show ?thesis using ih Some by (simp add: pixels_Cons_Some)
  qed
qed

lemma layout_dvd:
  assumes "layout Wn Hn cs"
  shows "Wn dvd length (pixels cs)"
proof (rule dvd_length_pixels, intro ballI allI impI)
  fix x c assume "x \<in> set cs" and x: "x = Some c"
  then obtain j where j: "j < length cs" "cs ! j = x" by (auto simp: in_set_conv_nth)
  then have "j < NUM_CANVAS" using assms by (simp add: layout_def)
  then obtain c' hgt where "cs ! j = Some c'" "length (buffer c') = Wn * hgt"
    using assms unfolding layout_def by blast
  then show "Wn dvd length (buffer c)" using j x by simp
qed

lemma layout_full_prefix:
  assumes l: "layout Wn Hn cs"
  shows "CANVAS_HEIGHT * k \<le> Hn \<Longrightarrow> k \<le> NUM_CANVAS \<Longrightarrow>
     length (pixels (take k cs)) = k * (CANVAS_HEIGHT * Wn)"
proof (induction k)
  case 0
  then show ?case by (simp add: pixels_Nil)
next
  case (Suc k)
  then have k: "k < NUM_CANVAS" "CANVAS_HEIGHT * k < Hn" "CANVAS_HEIGHT \<le> Hn - CANVAS_HEIGHT * k"
    by (simp_all add: CANVAS_HEIGHT_def)
  then obtain c hgt where c: "cs ! k = Some c" "length (buffer c) = Wn * hgt"
      "hgt = min CANVAS_HEIGHT (Hn - CANVAS_HEIGHT * k)"
    using l unfolding layout_def by blast
  have h: "hgt = CANVAS_HEIGHT" using c(3) k(3) by simp
  have kl: "k < length cs" using k(1) l by (simp add: layout_def)
  have "length (pixels (take (Suc k) cs)) = length (pixels (take k cs)) + length (buffer c)"
    using kl c(1) by (rule length_pixels_Suc)
  also have "\<dots> = k * (CANVAS_HEIGHT * Wn) + Wn * CANVAS_HEIGHT"
    using Suc c(2) h by simp
  finally show ?case by (simp add: mult.commute)
qed

lemma layout_row:
  assumes l: "layout Wn Hn cs" and r: "r < Hn" "r < NUM_CANVAS * CANVAS_HEIGHT"
  shows "length (pixels (take (r div CANVAS_HEIGHT) cs)) = (r div CANVAS_HEIGHT) * (CANVAS_HEIGHT * Wn) \<and>
     (\<exists>c. cs ! (r div CANVAS_HEIGHT) = Some c \<and> (r mod CANVAS_HEIGHT + 1) * Wn \<le> length (buffer c))"
proof -
  let ?k = "r div CANVAS_HEIGHT"
  have k12: "?k < NUM_CANVAS" using r(2) by (simp add: CANVAS_HEIGHT_def NUM_CANVAS_def)
  have kr: "CANVAS_HEIGHT * ?k + r mod CANVAS_HEIGHT = r" by simp
  then have klt: "CANVAS_HEIGHT * ?k < Hn" using r(1) by linarith
  have p: "length (pixels (take ?k cs)) = ?k * (CANVAS_HEIGHT * Wn)"
    using l by (rule layout_full_prefix) (use klt k12 in simp_all)
  obtain c hgt where c: "cs ! ?k = Some c" "length (buffer c) = Wn * hgt"
      "hgt = min CANVAS_HEIGHT (Hn - CANVAS_HEIGHT * ?k)"
    using l k12 klt unfolding layout_def by blast
  have "r mod CANVAS_HEIGHT < CANVAS_HEIGHT" by (simp add: CANVAS_HEIGHT_def)
  moreover have "r mod CANVAS_HEIGHT < Hn - CANVAS_HEIGHT * ?k" using kr r(1) by linarith
  ultimately have "r mod CANVAS_HEIGHT + 1 \<le> hgt" using c(3) by simp
  then have "(r mod CANVAS_HEIGHT + 1) * Wn \<le> hgt * Wn" by (rule mult_le_mono1)
  then show ?thesis using p c by (auto simp: mult.commute)
qed

section \<open>Decoded pixels of a whole file\<close>

lemma file_read_ok: "file_ok bytes f \<Longrightarrow> file_ok bytes (snd (file_read f))"
  by (simp add: file_ok_def file_read_def)

lemma readLE16_ok: "file_ok bytes f \<Longrightarrow> file_ok bytes (snd (readLE16 f))"
  by (simp add: readLE16_def Let_def case_prod_beta file_read_ok)

lemma readLE32_ok: "file_ok bytes f \<Longrightarrow> file_ok bytes (snd (readLE32 f))"
  by (simp add: readLE32_def Let_def case_prod_beta file_read_ok)

lemma read_header_ok: "file_ok bytes f \<Longrightarrow> file_ok bytes (snd (read_header f))"
  by (simp add: read_header_def Let_def case_prod_beta readLE32_ok readLE16_ok)

lemma file_after_header_ok: "file_ok bytes (file_after_header bytes)"
  unfolding file_after_header_def
  by (intro read_header_ok readLE16_ok) (simp add: file_ok_def open_file_def)

lemma rowSize_24:
  assumes "0 < sint (bw :: 32 word)" "sint bw < 32768"
  shows "unat (rowSize_of 24 bw) = (24 * nat (sint bw) + 31) div 32 * 4"
proof -
  let ?W = "nat (sint bw)"
  have sb: "sint bw = int (unat bw)" using assms(1) by (simp add: sint_unat32)
  then have uW: "unat bw = ?W" by simp
  have W: "?W < 32768" using assms by simp
  have u24: "unat (24 * bw) = 24 * ?W"
    using unat_mult32 [of 24 bw] uW W by simp
  have u: "unat (24 * bw + 31) = 24 * ?W + 31"
    using unat_add32 [of "24 * bw" 31] u24 W by simp
  have s: "sint (24 * bw + 31) = int (24 * ?W + 31)"
  proof -
    have lt: "uint (24 * bw + 31) < 2 ^ 31" unfolding uint_nat u using assms by simp
    have "signed_take_bit 31 (uint (24 * bw + 31)) = uint (24 * bw + 31)"
    proof (rule signed_take_bit_int_eq_self)
      have "- (2 ^ 31) \<le> (0::int)" by simp
      then show "- (2 ^ 31) \<le> uint (24 * bw + 31)"
        using uint_ge_0 [of "24 * bw + 31"] by (rule order_trans)
      show "uint (24 * bw + 31) < 2 ^ 31" using lt .
    qed
    then have "sint (24 * bw + 31) = uint (24 * bw + 31)" unfolding sint_uint by simp
    then show ?thesis unfolding uint_nat u .
  qed
  have "sint (24 * bw + 31) sdiv 32 = int ((24 * ?W + 31) div 32)"
    unfolding s by (simp add: sdiv_int_div_0 sgn_if signed_divide_int_def zdiv_int)
  then have "rowSize_of 24 bw = of_nat ((24 * ?W + 31) div 32) * 4"
    by (simp add: rowSize_of_def)
  moreover have "unat (of_nat ((24 * ?W + 31) div 32) :: 32 word) = (24 * ?W + 31) div 32"
    using W by (intro unat_of_nat32) simp
  ultimately show ?thesis
    using unat_mult32 [of "of_nat ((24 * ?W + 31) div 32)" 4] W by simp
qed

lemma unat_ucast_32_16: "unat (x :: 32 word) < 65536 \<Longrightarrow> unat (ucast x :: 16 word) = unat x"
  by (simp add: unsigned_ucast_eq take_bit_nat_eq_self)

lemma init_state:
  assumes r: "roomy cs" and f: "file_ok bytes f"
    and s0: "s0 = \<lparr>bmp_file = f, sdbuf = take (3 * BUFPIXELS) (junk @ replicate (3 * BUFPIXELS) 0),
                    srcidx = 3 * BUFPIXELS, destidx = 0, currentCanvasIndex = 0, currentCanvas = 0,
                    canvases = cs\<rparr>"
  shows "src_inv bytes s0 (position f)" and "dest_at s0 0"
proof -
  show "src_inv bytes s0 (position f)"
    using f by (simp add: src_inv_def s0 file_ok_def BUFPIXELS_def)
  have len: "length cs = NUM_CANVAS" using r by (simp add: roomy_def)
  have "0 < NUM_CANVAS" by (simp add: NUM_CANVAS_def)
  then have "\<exists>c. cs ! 0 = Some c \<and> capacity c = length (buffer c) \<and> 0 < length (buffer c)"
    using r unfolding roomy_def by blast
  then obtain c0 where c0: "cs ! 0 = Some c0" "0 < length (buffer c0)" by blast
  have "pixels cs = pixels (take 0 cs) @ buffer c0 @ pixels (drop (Suc 0) cs)"
    using c0(1) len by (intro pixels_split) (simp_all add: NUM_CANVAS_def)
  then have "length (pixels cs) = length (pixels (take 0 cs)) + length (buffer c0) + length (pixels (drop (Suc 0) cs))"
    by (simp only: length_append add.assoc)
  then have pos: "0 < length (pixels cs)" using c0(2) by linarith
  show "dest_at s0 0"
    using r pos c0 by (simp add: dest_at_def s0 pixels_Nil NUM_CANVAS_def del: length_greater_0_conv)
qed

lemma row_loop_from_start:
  assumes g: "geometry bytes hdr rowSize"
    and ok: "flip hdr \<or> nat (sint (bmpWidth hdr)) mod BUFPIXELS \<noteq> BUFPIXELS - 1"
    and W: "W = nat (sint (bmpWidth hdr))"
    and f: "file_ok bytes f"
    and r: "roomy cs" and l: "layout W Hn cs" and Hn: "Hn = unat (bmpHeight hdr)"
    and s0: "s0 = \<lparr>bmp_file = f, sdbuf = take (3 * BUFPIXELS) (junk @ replicate (3 * BUFPIXELS) 0),
                    srcidx = 3 * BUFPIXELS, destidx = 0, currentCanvasIndex = 0, currentCanvas = 0,
                    canvases = cs\<rparr>"
  shows "\<exists>s'. row_loop hdr rowSize 0 s0 = Inr s' \<and>
     (\<forall>row col. row < Hn \<and> row < NUM_CANVAS * CANVAS_HEIGHT \<and> col < W \<longrightarrow>
        (\<exists>cv. canvases s' ! (row div CANVAS_HEIGHT) = Some cv \<and>
           buffer cv ! ((row mod CANVAS_HEIGHT) * W + col)
             = pixel_at bytes (row_pos hdr rowSize row + 3 * col)))"
proof -
  have W0: "0 < W" using g W by (simp add: geometry_def)
  have inv: "src_inv bytes s0 (position f)" and at0: "dest_at s0 0"
    using init_state [OF r f s0] by simp_all
  have J: "0 = (0::nat) \<and> srcidx s0 = 3 * BUFPIXELS \<or>
    0 < (0::nat) \<and> position f = row_pos hdr rowSize (0 - 1) + 3 * W \<and>
    srcidx s0 mod (3 * BUFPIXELS) = (3 * W) mod (3 * BUFPIXELS)"
    by (simp add: s0)
  have at: "dest_at s0 (0 * W)" using at0 by simp
  from layout_dvd [OF l] obtain T where T: "length (pixels cs) = T * W"
    by (auto simp: dvd_def mult.commute)
  have len0: "length (pixels (canvases s0)) = T * W" using T by (simp add: s0)
  from row_loop_at [OF g ok W inv J at len0] obtain s' where
    run: "row_loop hdr rowSize 0 s0 = Inr s'" and lt: "length (pixels (canvases s')) = T * W"
    and px: "\<forall>r' c. 0 \<le> r' \<and> r' < unat (bmpHeight hdr) \<and> r' < T \<and> c < W \<longrightarrow>
          pixels (canvases s') ! (r' * W + c) = pixel_at bytes (row_pos hdr rowSize r' + 3 * c)"
    by auto
  have "shape (canvases s') = shape (canvases s0)" using run by (rule row_loop_shape)
  then have sh: "shape (canvases s') = shape cs" by (simp add: s0)
  have l': "layout W Hn (canvases s')" using sh l by (rule layout_shape)
  have len': "length (canvases s') = NUM_CANVAS" using l' by (simp add: layout_def)
  {
    fix row col
    assume h: "row < Hn" "row < NUM_CANVAS * CANVAS_HEIGHT" "col < W"
    let ?k = "row div CANVAS_HEIGHT"
    let ?d = "(row mod CANVAS_HEIGHT) * W + col"
    from layout_row [OF l' h(1,2)] obtain cv where
      pre: "length (pixels (take ?k (canvases s'))) = ?k * (CANVAS_HEIGHT * W)"
      and cv: "canvases s' ! ?k = Some cv" "(row mod CANVAS_HEIGHT + 1) * W \<le> length (buffer cv)"
      by blast
    have k12: "?k < length (canvases s')"
      using h(2) len' by (simp add: CANVAS_HEIGHT_def NUM_CANVAS_def)
    have d: "?d < length (buffer cv)" using cv(2) h(3) by simp
    have split: "row * W + col = ?k * (CANVAS_HEIGHT * W) + ?d"
    proof -
      have "row = ?k * CANVAS_HEIGHT + row mod CANVAS_HEIGHT" by simp
      then have "row * W = (?k * CANVAS_HEIGHT + row mod CANVAS_HEIGHT) * W" by simp
      then show ?thesis by (simp only: add_mult_distrib mult.assoc add.assoc)
    qed
    have "length (pixels (take (Suc ?k) (canvases s'))) = length (pixels (take ?k (canvases s'))) + length (buffer cv)"
      using k12 cv(1) by (rule length_pixels_Suc)
    moreover have "length (pixels (take (Suc ?k) (canvases s'))) \<le> length (pixels (canvases s'))"
      by (rule length_pixels_take_le)
    ultimately have "?k * (CANVAS_HEIGHT * W) + length (buffer cv) \<le> T * W" using pre lt by simp
    then have "row * W + col < T * W" using split d by linarith
    then have "row * W < T * W" by linarith
    then have rT: "row < T" by simp
    have "pixels (canvases s') ! (row * W + col) = pixel_at bytes (row_pos hdr rowSize row + 3 * col)"
      using px h rT Hn by simp
    moreover have "pixels (canvases s') ! (length (pixels (take ?k (canvases s'))) + ?d) = buffer cv ! ?d"
      using k12 cv(1) d by (rule pixels_nth)
    ultimately have "buffer cv ! ?d = pixel_at bytes (row_pos hdr rowSize row + 3 * col)"
      using pre split by simp
    then have "\<exists>cv. canvases s' ! ?k = Some cv \<and>
           buffer cv ! ?d = pixel_at bytes (row_pos hdr rowSize row + 3 * col)"
      using cv(1) by blast
  }
  then show ?thesis using run by blast
qed

lemma load24_pixels:
  assumes a: "alloc_loop new_ok (bmpWidth hdr) 0 True (ucast (bmpHeight hdr)) (canvas img) = (True, cs)"
    and r: "roomy cs" and l: "layout W (unat (bmpHeight hdr)) cs"
    and g: "geometry bytes hdr rowSize"
    and ok: "flip hdr \<or> nat (sint (bmpWidth hdr)) mod BUFPIXELS \<noteq> BUFPIXELS - 1"
    and W: "W = nat (sint (bmpWidth hdr))"
    and f: "file_ok bytes f" and d: "16 \<le> depth hdr"
  shows "\<exists>im. load24 new_ok junk hdr rowSize f img = Inr (IMAGE_SUCCESS, im) \<and>
     (\<forall>row col. row < unat (bmpHeight hdr) \<and> row < NUM_CANVAS * CANVAS_HEIGHT \<and> col < W \<longrightarrow>
        (\<exists>cv. canvas im ! (row div CANVAS_HEIGHT) = Some cv \<and>
           buffer cv ! ((row mod CANVAS_HEIGHT) * W + col)
             = pixel_at bytes (row_pos hdr rowSize row + 3 * col)))"
proof -
  define s0 where "s0 = \<lparr>bmp_file = f, sdbuf = take (3 * BUFPIXELS) (junk @ replicate (3 * BUFPIXELS) 0),
                    srcidx = 3 * BUFPIXELS, destidx = 0, currentCanvasIndex = 0, currentCanvas = 0,
                    canvases = cs\<rparr>"
  from row_loop_from_start [OF g ok W f r l refl s0_def] obtain s' where
    run: "row_loop hdr rowSize 0 s0 = Inr s'"
    and px: "\<forall>row col. row < unat (bmpHeight hdr) \<and> row < NUM_CANVAS * CANVAS_HEIGHT \<and> col < W \<longrightarrow>
        (\<exists>cv. canvases s' ! (row div CANVAS_HEIGHT) = Some cv \<and>
           buffer cv ! ((row mod CANVAS_HEIGHT) * W + col)
             = pixel_at bytes (row_pos hdr rowSize row + 3 * col))"
    by blast
  have "0 < NUM_CANVAS" by (simp add: NUM_CANVAS_def)
  then obtain c0 where c0: "cs ! 0 = Some c0" using r unfolding roomy_def by blast
  have "load24 new_ok junk hdr rowSize f img =
      Inr (IMAGE_SUCCESS, img\<lparr>w := ucast (bmpWidth hdr), h := ucast (bmpHeight hdr), canvas := cs,
             format := IMAGE_16, canvas := canvases s'\<rparr>)"
    using a c0 d run by (simp add: load24_def Let_def s0_def)
  then show ?thesis using px by simp
qed

lemma stride_bounds:
  "3 * (W :: nat) \<le> (24 * W + 31) div 32 * 4 \<and> (24 * W + 31) div 32 * 4 \<le> 3 * W + 3"
  by presburger

text \<open>
  Where the decoded pixels are the packed pixels of the file. For a 24-bit file with one
  plane and no compression, a width below 32768, a height below 65536 for which every slot is
  filled, and the whole pixel array inside the file: if the file is bottom-up, or its width is
  not \<open>BUFPIXELS - 1\<close> modulo \<open>BUFPIXELS\<close>, the load returns \<open>IMAGE_SUCCESS\<close> and the pixel of
  output row \<open>row\<close> (below \<open>NUM_CANVAS * CANVAS_HEIGHT\<close>) and column \<open>col\<close> is in segment
  \<open>row div CANVAS_HEIGHT\<close> at \<open>(row mod CANVAS_HEIGHT) * W + col\<close>, and is the packing of the
  three bytes at \<open>offset + r * stride + 3 * col\<close>, \<open>r\<close> being \<open>row\<close> for a top-down file and
  \<open>H - 1 - row\<close> for a bottom-up one.
\<close>

lemma pixel_round_trip:
  assumes "fs name = Some bytes" and "signature_of bytes = 0x4D42"
    and "planes (header_of bytes) = 1" and "compression (header_of bytes) = 0"
    and "depth (header_of bytes) = 24"
    and "\<forall>j<NUM_CANVAS. new_ok j"
    and "0 < sint (bmpWidth (header_of bytes))" and "sint (bmpWidth (header_of bytes)) < 32768"
    and "0 < sint (bmpHeight (header_of bytes))" and "sint (bmpHeight (header_of bytes)) < 65536"
    and "fills_all_slots (ucast (bmpHeight (header_of bytes)))"
    and "W = nat (sint (bmpWidth (header_of bytes)))"
    and "H = nat (sint (bmpHeight (header_of bytes)))"
    and "stride = (24 * W + 31) div 32 * 4"
    and "unat (offset (header_of bytes)) + H * stride \<le> length bytes"
    and "length bytes < 2 ^ 32"
    and "flip (header_of bytes) \<or> W mod BUFPIXELS \<noteq> BUFPIXELS - 1"
    and "row < H" and "row < NUM_CANVAS * CANVAS_HEIGHT" and "col < W"
    and "p = unat (offset (header_of bytes))
             + (if flip (header_of bytes) then H - 1 - row else row) * stride + 3 * col"
  shows "\<exists>im cv. loadBMP fs new_ok junk name img = Inr (IMAGE_SUCCESS, im) \<and>
     canvas im ! (row div CANVAS_HEIGHT) = Some cv \<and>
     buffer cv ! ((row mod CANVAS_HEIGHT) * W + col)
       = rgb565 (bytes ! (p + 2)) (bytes ! (p + 1)) (bytes ! p)"
proof -
  let ?hdr = "header_of bytes"
  let ?rs = "rowSize_of 24 (bmpWidth ?hdr)"
  have uW: "unat (bmpWidth ?hdr) = W"
    using sint_unat32 [of "bmpWidth ?hdr"] assms(7,12) by simp
  have uH: "unat (bmpHeight ?hdr) = H"
    using sint_unat32 [of "bmpHeight ?hdr"] assms(9,13) by simp
  have W: "0 < W" "W < 32768" using assms(7,8,12) by simp_all
  have H: "H < 65536" using assms(10,13) by simp
  have w16: "unat (ucast (bmpWidth ?hdr) :: 16 word) = W"
    using unat_ucast_32_16 [of "bmpWidth ?hdr"] uW W by simp
  have h16: "unat (ucast (bmpHeight ?hdr) :: 16 word) = H"
    using unat_ucast_32_16 [of "bmpHeight ?hdr"] uH H by simp
  from alloc_loop_layout [OF assms(6,11), of "bmpWidth ?hdr"] w16 W h16 obtain cs where
    a: "alloc_loop new_ok (bmpWidth ?hdr) 0 True (ucast (bmpHeight ?hdr)) (replicate NUM_CANVAS None)
          = (True, cs)"
    and r: "roomy cs" and l: "layout W H cs"
    by auto
  have rs: "unat ?rs = stride" using rowSize_24 [OF assms(7,8)] assms(12,14) by simp
  have g: "geometry bytes ?hdr ?rs"
    unfolding geometry_def rs uH using assms(7,9,15,16) stride_bounds [of W] assms(12,14) by simp
  have ok: "flip ?hdr \<or> nat (sint (bmpWidth ?hdr)) mod BUFPIXELS \<noteq> BUFPIXELS - 1"
    using assms(17,12) by simp
  have a': "alloc_loop new_ok (bmpWidth ?hdr) 0 True (ucast (bmpHeight ?hdr)) (canvas (dealloc img))
          = (True, cs)"
    using a by (simp add: dealloc_def)
  have l': "layout W (unat (bmpHeight ?hdr)) cs" using l uH by simp
  from load24_pixels [OF a' r l' g ok assms(12) file_after_header_ok, of junk] assms(5)
  obtain im where
    ld: "load24 new_ok junk ?hdr ?rs (file_after_header bytes) (dealloc img) = Inr (IMAGE_SUCCESS, im)"
    and px: "\<forall>row col. row < unat (bmpHeight ?hdr) \<and> row < NUM_CANVAS * CANVAS_HEIGHT \<and> col < W \<longrightarrow>
        (\<exists>cv. canvas im ! (row div CANVAS_HEIGHT) = Some cv \<and>
           buffer cv ! ((row mod CANVAS_HEIGHT) * W + col)
             = pixel_at bytes (row_pos ?hdr ?rs row + 3 * col))"
    by auto
  have run: "loadBMP fs new_ok junk name img = Inr (IMAGE_SUCCESS, im)"
    using coreBMP_signature_ok [where fs = fs and name = name and bytes = bytes, OF assms(1,2)]
      assms(3,4,5) ld
    by (simp add: loadBMP_def)
  have pp: "row_pos ?hdr ?rs row + 3 * col = p"
    unfolding row_pos_def rs uH using assms(21) by simp
  from px assms(18,19,20) uH obtain cv where
    "canvas im ! (row div CANVAS_HEIGHT) = Some cv"
    "buffer cv ! ((row mod CANVAS_HEIGHT) * W + col) = pixel_at bytes (row_pos ?hdr ?rs row + 3 * col)"
    by blast
  then show ?thesis using run pp by (auto simp: pixel_at_def)
qed

lemma length_bmp_header: "length (bmp_header [w0, w1, w2, w3] [h0, h1, h2, h3] d) = 54"
  by (simp add: bmp_header_def)

lemma header_2x3:
  "signature_of bmp_2x3 = 0x4D42"
  "header_of bmp_2x3 =
     \<lparr>offset = 54, headerSize = 40, bmpWidth = 2, bmpHeight = 3, flip = True,
      planes = 1, depth = 24, compression = 0\<rparr>"
  "length bmp_2x3 = 78"
  by (simp_all add: bmp_2x3_def header_of_bmp_header le32_at_def length_bmp_header)

text \<open>
  On \<open>bmp_2x3\<close>: the pixel of output row 0 and column 1 is the packing of the bytes
  \<open>40 50 60\<close> (\<open>B\<close>, \<open>G\<close>, \<open>R\<close>) at byte 73, in the last row of the file.
\<close>

lemma pixel_round_trip_2x3:
  "\<exists>im cv. loadBMP (one_file bmp_2x3) every_new [] ''a.bmp'' (SPIFFS_Image_new 0 0)
              = Inr (IMAGE_SUCCESS, im) \<and>
     canvas im ! 0 = Some cv \<and> buffer cv ! (0 * 2 + 1) = 0x6288 \<and>
     rgb565 0x60 0x50 0x40 = 0x6288"
proof -
  have b: "bmp_2x3 ! 73 = 0x40" "bmp_2x3 ! 74 = 0x50" "bmp_2x3 ! 75 = 0x60"
    by (simp_all add: bmp_2x3_def nth_append length_bmp_header)
  have v: "rgb565 0x60 0x50 0x40 = 0x6288" by (simp add: rgb565_def)
  have r: "\<exists>im cv. loadBMP (one_file bmp_2x3) every_new [] ''a.bmp'' (SPIFFS_Image_new 0 0)
              = Inr (IMAGE_SUCCESS, im) \<and>
     canvas im ! (0 div CANVAS_HEIGHT) = Some cv \<and>
     buffer cv ! ((0 mod CANVAS_HEIGHT) * 2 + 1) = rgb565 (bmp_2x3 ! (73 + 2)) (bmp_2x3 ! (73 + 1)) (bmp_2x3 ! 73)"
  proof (rule pixel_round_trip [where W = 2 and H = 3 and stride = 8 and row = 0 and col = 1])
    show "one_file bmp_2x3 ''a.bmp'' = Some bmp_2x3" by simp
    show "signature_of bmp_2x3 = 0x4D42" by (rule header_2x3)
    show "planes (header_of bmp_2x3) = 1" "compression (header_of bmp_2x3) = 0"
      "depth (header_of bmp_2x3) = 24" by (simp_all add: header_2x3)
    show "\<forall>j<NUM_CANVAS. every_new j" by (rule every_new_all)
    show "0 < sint (bmpWidth (header_of bmp_2x3))" "sint (bmpWidth (header_of bmp_2x3)) < 32768"
      "0 < sint (bmpHeight (header_of bmp_2x3))" "sint (bmpHeight (header_of bmp_2x3)) < 65536"
      by (simp_all add: header_2x3)
    show "fills_all_slots (ucast (bmpHeight (header_of bmp_2x3)))"
      by (simp add: header_2x3 fills_all_slots_def CANVAS_HEIGHT_def)
    show "2 = nat (sint (bmpWidth (header_of bmp_2x3)))" "3 = nat (sint (bmpHeight (header_of bmp_2x3)))"
      by (simp_all add: header_2x3)
    show "(8::nat) = (24 * 2 + 31) div 32 * 4" by simp
    show "unat (offset (header_of bmp_2x3)) + 3 * 8 \<le> length bmp_2x3" by (simp add: header_2x3)
    show "length bmp_2x3 < 2 ^ 32" by (simp add: header_2x3)
    show "flip (header_of bmp_2x3) \<or> 2 mod BUFPIXELS \<noteq> BUFPIXELS - 1" by (simp add: header_2x3)
    show "(0::nat) < 3" "0 < NUM_CANVAS * CANVAS_HEIGHT" "(1::nat) < 2"
      by (simp_all add: NUM_CANVAS_def CANVAS_HEIGHT_def)
    show "73 = unat (offset (header_of bmp_2x3))
             + (if flip (header_of bmp_2x3) then 3 - 1 - 0 else 0) * 8 + 3 * 1"
      by (simp add: header_2x3)
  qed
  then show ?thesis using b v by (simp add: CANVAS_HEIGHT_def)
qed
section \<open>Top-down files 199 pixels wide\<close>

text \<open>
  A row of 199 pixels is 597 bytes and 3 bytes of padding: the row size is the size of the
  scratch buffer. After row 0 of a top-down file the file position is the position of row 1,
  no seek is made, and row 1 is decoded from the three bytes left in the buffer.
\<close>

lemma header_top_down_199:
  "signature_of (top_down_199 rest) = 0x4D42"
  "header_of (top_down_199 rest) =
     \<lparr>offset = 54, headerSize = 40, bmpWidth = 199, bmpHeight = 2, flip = False,
      planes = 1, depth = 24, compression = 0\<rparr>"
  "file_after_header (top_down_199 rest) = \<lparr>contents = top_down_199 rest, position = 54\<rparr>"
  "length (top_down_199 rest) = 54 + length rest"
  by (simp_all add: top_down_199_def header_of_bmp_header file_after_bmp_header le32_at_def
      length_bmp_header)

lemma dest_at_index:
  "dest_at s n \<Longrightarrow> n < length (pixels (canvases s)) \<Longrightarrow> unat (currentCanvasIndex s) < NUM_CANVAS"
  by (simp add: dest_at_def)

lemma row_loop_step:
  "unat (currentCanvasIndex s) < NUM_CANVAS \<Longrightarrow> int r < sint (bmpHeight hdr) \<Longrightarrow>
   pixel_loop (sint (bmpWidth hdr)) 0 (seek_row hdr rowSize r s) = Inr s' \<Longrightarrow>
     row_loop hdr rowSize r s = row_loop hdr rowSize (r + 1) s'"
  by (subst row_loop.simps) simp

lemma row_loop_top_down_199:
  assumes hdr: "hdr = \<lparr>offset = 54, headerSize = 40, bmpWidth = 199, bmpHeight = 2, flip = False,
      planes = 1, depth = 24, compression = 0\<rparr>"
    and rs: "unat rowSize = 600"
    and inv: "src_inv bytes s0 54" and at: "dest_at s0 0" and i0: "srcidx s0 = 3 * BUFPIXELS"
    and len: "1254 \<le> length bytes" "length bytes < 2 ^ 32"
    and room: "398 \<le> length (pixels (canvases s0))"
  shows "\<exists>s'. row_loop hdr rowSize 0 s0 = Inr s' \<and>
      (\<forall>j<199. pixels (canvases s') ! j = pixel_at bytes (54 + 3 * j)) \<and>
      (\<forall>j<199. pixels (canvases s') ! (199 + j) = pixel_at bytes (651 + 3 * j))"
proof -
  have H: "unat (bmpHeight hdr) = 2" "sint (bmpHeight hdr) = 2" "sint (bmpWidth hdr) = 199"
    by (simp_all add: hdr)
  have bp: "unat (bmpPos_of hdr rowSize r) = 54 + r * 600" if "r < 2" for r
  proof -
    have "unat (bmpPos_of hdr rowSize r) = row_pos hdr rowSize r"
      using that by (intro bmpPos_unat) (simp_all add: hdr rs)
    then show ?thesis by (simp add: row_pos_def hdr rs)
  qed
  have p0: "position (bmp_file s0) = 54"
    using inv i0 len by (simp add: src_inv_def)
  have "0 < length (pixels (canvases s0))" using room by linarith
  with at have idx0: "unat (currentCanvasIndex s0) < NUM_CANVAS" by (rule dest_at_index)
  have seek0: "seek_row hdr rowSize 0 s0 = s0"
    using bp [of 0] p0 by (simp add: seek_row_def)
  have m: "(199::nat) = nat 199 - 0" by simp
  have a0: "54 + 3 * 199 \<le> length bytes" using len by simp
  have b0: "0 + 199 \<le> length (pixels (canvases s0))" using room by simp
  from pixel_loop_at [OF inv at m a0 b0] obtain s1 where
    s1: "pixel_loop 199 0 s0 = Inr s1" "src_inv bytes s1 (54 + 3 * 199)" "dest_at s1 (0 + 199)"
      "srcidx s1 mod (3 * BUFPIXELS) = (srcidx s0 + 3 * 199) mod (3 * BUFPIXELS)"
      "length (pixels (canvases s1)) = length (pixels (canvases s0))"
      "\<forall>j<199. pixels (canvases s1) ! (0 + j) = pixel_at bytes (54 + 3 * j)"
    by blast
  have "srcidx s1 mod 600 = 597" using s1(4) i0 by (simp add: BUFPIXELS_def)
  moreover have "srcidx s1 \<le> 600" using s1(2) by (simp add: src_inv_def BUFPIXELS_def)
  ultimately have i1: "srcidx s1 = 597"
    by (metis le_neq_implies_less mod_less mod_self zero_neq_numeral)
  have p1: "position (bmp_file s1) = 654"
    using s1(2) i1 len by (simp add: src_inv_def BUFPIXELS_def)
  have room1: "398 \<le> length (pixels (canvases s1))" using room s1(5) by simp
  have at1: "dest_at s1 199" using s1(3) by simp
  have "199 < length (pixels (canvases s1))" using room1 by linarith
  with at1 have idx1: "unat (currentCanvasIndex s1) < NUM_CANVAS" by (rule dest_at_index)
  have seek1: "seek_row hdr rowSize 1 s1 = s1"
    using bp [of 1] p1 by (simp add: seek_row_def)
  have inv1: "src_inv bytes s1 651" using s1(2) by simp
  have a1: "651 + 3 * 199 \<le> length bytes" using len by simp
  have b1: "199 + 199 \<le> length (pixels (canvases s1))" using room1 by simp
  from pixel_loop_at [OF inv1 at1 m a1 b1] obtain s2 where
    s2: "pixel_loop 199 0 s1 = Inr s2"
      "\<forall>j<199. pixels (canvases s2) ! (199 + j) = pixel_at bytes (651 + 3 * j)"
      "\<forall>i<199. pixels (canvases s2) ! i = pixels (canvases s1) ! i"
    by blast
  have stop: "row_loop hdr rowSize 2 s2 = Inr s2"
    by (subst row_loop.simps) (simp add: H)
  have "row_loop hdr rowSize 0 s0 = row_loop hdr rowSize (0 + 1) s1"
    using idx0 by (rule row_loop_step) (simp_all add: H seek0 s1(1))
  also have "\<dots> = row_loop hdr rowSize (0 + 1 + 1) s2"
    using idx1 by (rule row_loop_step) (use seek1 s2(1) in \<open>simp_all add: H\<close>)
  also have "(0::nat) + 1 + 1 = 2" by simp
  also note stop
  finally have "row_loop hdr rowSize 0 s0 = Inr s2" .
  moreover have "\<forall>j<199. pixels (canvases s2) ! j = pixel_at bytes (54 + 3 * j)"
    using s2(3) s1(6) by simp
  ultimately show ?thesis using s2(2) by blast
qed

lemma load_top_down_199:
  assumes len: "length rest = 1200"
  shows "\<exists>im cv. loadBMP (one_file (top_down_199 rest)) every_new junk ''a.bmp'' img
            = Inr (IMAGE_SUCCESS, im) \<and>
      canvas im ! 0 = Some cv \<and> length (buffer cv) = 398 \<and>
      (\<forall>j<199. buffer cv ! j = pixel_at (top_down_199 rest) (54 + 3 * j)) \<and>
      (\<forall>j<199. buffer cv ! (199 + j) = pixel_at (top_down_199 rest) (651 + 3 * j))"
proof -
  let ?bytes = "top_down_199 rest"
  let ?hdr = "header_of ?bytes"
  let ?rs = "rowSize_of 24 (bmpWidth ?hdr)"
  note h = header_top_down_199 [of rest]
  have f: "fills_all_slots (ucast (bmpHeight ?hdr))"
    by (simp add: h fills_all_slots_def CANVAS_HEIGHT_def)
  have w: "0 < unat (ucast (bmpWidth ?hdr) :: 16 word)" "unat (ucast (bmpWidth ?hdr) :: 16 word) < 32768"
    by (simp_all add: h)
  from alloc_loop_layout [OF every_new_all f w] obtain cs where
    a: "alloc_loop every_new (bmpWidth ?hdr) 0 True (ucast (bmpHeight ?hdr)) (replicate NUM_CANVAS None)
          = (True, cs)"
    and r: "roomy cs"
    and l: "layout (unat (ucast (bmpWidth ?hdr) :: 16 word)) (unat (ucast (bmpHeight ?hdr) :: 16 word)) cs"
    by blast
  have l2: "layout 199 2 cs" using l by (simp add: h)
  have n: "length cs = NUM_CANVAS" using l2 by (simp add: layout_def)
  have first: "\<exists>c. cs' ! 0 = Some c \<and> length (buffer c) = 398" if L: "layout 199 2 cs'" for cs'
  proof -
    have "0 < NUM_CANVAS" "CANVAS_HEIGHT * 0 < (2::nat)" by (simp_all add: NUM_CANVAS_def)
    then obtain c hgt where "cs' ! 0 = Some c" "length (buffer c) = 199 * hgt"
        "hgt = min CANVAS_HEIGHT (2 - CANVAS_HEIGHT * 0)"
      using L unfolding layout_def by blast
    then show ?thesis by (auto simp: CANVAS_HEIGHT_def)
  qed
  from first [OF l2] obtain c0 where c0: "cs ! 0 = Some c0" "length (buffer c0) = 398" by blast
  have "pixels cs = pixels (take 0 cs) @ buffer c0 @ pixels (drop (Suc 0) cs)"
    using c0(1) n by (intro pixels_split) (simp_all add: NUM_CANVAS_def)
  then have "length (pixels cs) = length (pixels (take 0 cs)) + length (buffer c0) + length (pixels (drop (Suc 0) cs))"
    by (simp only: length_append add.assoc)
  then have room: "398 \<le> length (pixels cs)" using c0(2) by linarith
  define s0 where "s0 = \<lparr>bmp_file = file_after_header ?bytes,
      sdbuf = take (3 * BUFPIXELS) (junk @ replicate (3 * BUFPIXELS) 0),
      srcidx = 3 * BUFPIXELS, destidx = 0, currentCanvasIndex = 0, currentCanvas = 0, canvases = cs\<rparr>"
  have inv: "src_inv ?bytes s0 54" and at: "dest_at s0 0"
    using init_state [OF r file_after_header_ok s0_def] by (simp_all add: h)
  have rs: "unat ?rs = 600" using rowSize_24 [of "bmpWidth ?hdr"] by (simp add: h)
  from row_loop_top_down_199 [OF h(2) rs inv at] obtain s' where
    run: "row_loop ?hdr ?rs 0 s0 = Inr s'"
    and r0: "\<forall>j<199. pixels (canvases s') ! j = pixel_at ?bytes (54 + 3 * j)"
    and r1: "\<forall>j<199. pixels (canvases s') ! (199 + j) = pixel_at ?bytes (651 + 3 * j)"
    using room len by (auto simp: s0_def h)
  have "shape (canvases s') = shape (canvases s0)" using run by (rule row_loop_shape)
  then have "shape (canvases s') = shape cs" by (simp add: s0_def)
  then have l': "layout 199 2 (canvases s')" using l2 by (rule layout_shape)
  from first [OF l'] obtain cv where cv: "canvases s' ! 0 = Some cv" "length (buffer cv) = 398"
    by blast
  have n': "0 < length (canvases s')" using l' by (simp add: layout_def NUM_CANVAS_def)
  have nth: "pixels (canvases s') ! d = buffer cv ! d" if "d < 398" for d
    using pixels_nth [OF n' cv(1), of d] that cv(2) by (simp add: pixels_Nil)
  have b0: "\<forall>j<199. buffer cv ! j = pixel_at ?bytes (54 + 3 * j)"
    using r0 nth by simp
  have b1: "\<forall>j<199. buffer cv ! (199 + j) = pixel_at ?bytes (651 + 3 * j)"
    using r1 nth by simp
  have "load24 every_new junk ?hdr ?rs (file_after_header ?bytes) (dealloc img) =
      Inr (IMAGE_SUCCESS, (dealloc img)\<lparr>w := ucast (bmpWidth ?hdr), h := ucast (bmpHeight ?hdr),
             canvas := cs, format := IMAGE_16, canvas := canvases s'\<rparr>)"
    using a c0(1) run by (simp add: load24_def Let_def s0_def dealloc_def h)
  then have "loadBMP (one_file ?bytes) every_new junk ''a.bmp'' img =
      Inr (IMAGE_SUCCESS, (dealloc img)\<lparr>w := ucast (bmpWidth ?hdr), h := ucast (bmpHeight ?hdr),
             canvas := cs, format := IMAGE_16, canvas := canvases s'\<rparr>)"
    using coreBMP_signature_ok [where fs = "one_file ?bytes" and name = "''a.bmp''" and bytes = ?bytes,
        OF one_file_a h(1)]
    by (simp add: loadBMP_def h)
  then show ?thesis using cv b0 b1 by simp
qed

lemma nth_top_down_199: "54 \<le> i \<Longrightarrow> top_down_199 rest ! i = rest ! (i - 54)"
  by (simp add: top_down_199_def nth_append length_bmp_header)

text \<open>
  Claim C4 on \<open>bmp_199x2_red\<close>, a top-down file 199 pixels wide whose pixel at column 0 of
  row 1 (bytes 654 to 656) is red, everything else being zero. The load returns
  \<open>IMAGE_SUCCESS\<close>; the pixel decoded at column 0 of row 1 is 0, not the packing \<open>0xF800\<close>
  of the red pixel, which is decoded at column 1 of row 1.
\<close>

theorem C4_top_down_width_199:
  "map_sum id (\<lambda>(st, im). (st, buffer (the (canvas im ! 0)) ! (1 * 199 + 0),
                                 buffer (the (canvas im ! 0)) ! (1 * 199 + 1)))
     (loadBMP (one_file bmp_199x2_red) every_new [] ''a.bmp'' (SPIFFS_Image_new 0 0))
     = Inr (IMAGE_SUCCESS, 0, 0xF800) \<and>
   \<not> flip (header_of bmp_199x2_red) \<and>
   unat (offset (header_of bmp_199x2_red))
     + 1 * unat (rowSize_of 24 (bmpWidth (header_of bmp_199x2_red))) + 3 * 0 = 654 \<and>
   rgb565 (bmp_199x2_red ! (654 + 2)) (bmp_199x2_red ! (654 + 1)) (bmp_199x2_red ! 654) = 0xF800"
proof -
  let ?rest = "replicate 600 0 @ [0, 0, 0xFF] @ replicate 597 (0 :: 8 word)"
  have len: "length ?rest = 1200" by simp
  from load_top_down_199 [OF len, of "[]" "SPIFFS_Image_new 0 0"] obtain im cv where
    run: "loadBMP (one_file bmp_199x2_red) every_new [] ''a.bmp'' (SPIFFS_Image_new 0 0)
            = Inr (IMAGE_SUCCESS, im)"
    and cv: "canvas im ! 0 = Some cv"
    and r1: "\<forall>j<199. buffer cv ! (199 + j) = pixel_at bmp_199x2_red (651 + 3 * j)"
    unfolding bmp_199x2_red_def by blast
  have red: "rgb565 0xFF 0 0 = 0xF800" "rgb565 0 0 0 = 0" by (simp_all add: rgb565_def)
  have b: "bmp_199x2_red ! 651 = 0" "bmp_199x2_red ! 652 = 0" "bmp_199x2_red ! 653 = 0"
    "bmp_199x2_red ! 654 = 0" "bmp_199x2_red ! 655 = 0" "bmp_199x2_red ! 656 = 0xFF"
    by (simp_all add: bmp_199x2_red_def nth_top_down_199 nth_append)
  have "buffer cv ! 199 = pixel_at bmp_199x2_red 651" using r1 [rule_format, of 0] by simp
  then have p0: "buffer cv ! 199 = 0" by (simp add: pixel_at_def b red)
  have "buffer cv ! 200 = pixel_at bmp_199x2_red 654" using r1 [rule_format, of 1] by simp
  then have p1: "buffer cv ! 200 = 0xF800" by (simp add: pixel_at_def b red)
  have rs: "unat (rowSize_of 24 (bmpWidth (header_of bmp_199x2_red))) = 600"
    using rowSize_24 [of "bmpWidth (header_of bmp_199x2_red)"]
    by (simp add: bmp_199x2_red_def header_top_down_199)
  show ?thesis
    using run cv p0 p1 rs
    by (simp add: b red) (simp add: bmp_199x2_red_def header_top_down_199)
qed

text \<open>
  Claim C5 on \<open>bmp_199x2_pad\<close>, a top-down file 199 pixels wide, all of whose pixels are
  black; the three padding bytes of row 0 (bytes 651 to 653) are \<open>FF\<close>. Row 1 is at byte
  \<open>offset + 1 * rowSize = 654\<close> and its 597 pixel bytes are zero, but output row 1 starts with
  a white pixel: it is decoded from byte 651 on, the padding of row 0 being its first pixel.
\<close>

theorem C5_padding_decoded_as_pixel:
  "map_sum id (\<lambda>(st, im). (st, take 199 (drop (1 * 199) (buffer (the (canvas im ! 0))))))
     (loadBMP (one_file bmp_199x2_pad) every_new [] ''a.bmp'' (SPIFFS_Image_new 0 0))
     = Inr (IMAGE_SUCCESS, 0xFFFF # replicate 198 0) \<and>
   \<not> flip (header_of bmp_199x2_pad) \<and>
   unat (offset (header_of bmp_199x2_pad))
     + 1 * unat (rowSize_of 24 (bmpWidth (header_of bmp_199x2_pad))) = 654 \<and>
   take (3 * 199) (drop 654 bmp_199x2_pad) = replicate 597 0 \<and>
   take 3 (drop (54 + 3 * 199) bmp_199x2_pad) = [0xFF, 0xFF, 0xFF]"
proof -
  let ?rest = "replicate 597 0 @ [0xFF, 0xFF, 0xFF] @ replicate 600 (0 :: 8 word)"
  have len: "length ?rest = 1200" by simp
  from load_top_down_199 [OF len, of "[]" "SPIFFS_Image_new 0 0"] obtain im cv where
    run: "loadBMP (one_file bmp_199x2_pad) every_new [] ''a.bmp'' (SPIFFS_Image_new 0 0)
            = Inr (IMAGE_SUCCESS, im)"
    and cv: "canvas im ! 0 = Some cv" "length (buffer cv) = 398"
    and r1: "\<forall>j<199. buffer cv ! (199 + j) = pixel_at bmp_199x2_pad (651 + 3 * j)"
    unfolding bmp_199x2_pad_def by blast
  have px: "rgb565 0xFF 0xFF 0xFF = 0xFFFF" "rgb565 0 0 0 = 0" by (simp_all add: rgb565_def)
  have pad: "bmp_199x2_pad ! 651 = 0xFF" "bmp_199x2_pad ! 652 = 0xFF" "bmp_199x2_pad ! 653 = 0xFF"
    by (simp_all add: bmp_199x2_pad_def nth_top_down_199 nth_append)
  have zero: "bmp_199x2_pad ! i = 0" if "654 \<le> i" "i < 1254" for i
    using that by (simp add: bmp_199x2_pad_def nth_top_down_199 nth_append)
  have row: "take 199 (drop 199 (buffer cv)) = 0xFFFF # replicate 198 0"
  proof (rule nth_equalityI)
    show "length (take 199 (drop 199 (buffer cv))) = length (0xFFFF # replicate 198 (0 :: 16 word))"
      using cv(2) by simp
  next
    fix i assume "i < length (take 199 (drop 199 (buffer cv)))"
    then have i: "i < 199" using cv(2) by simp
    then have e: "take 199 (drop 199 (buffer cv)) ! i = pixel_at bmp_199x2_pad (651 + 3 * i)"
      using r1 cv(2) by simp
    show "take 199 (drop 199 (buffer cv)) ! i = (0xFFFF # replicate 198 0) ! i"
    proof (cases i)
      case 0
      then show ?thesis using e by (simp add: pixel_at_def pad px)
    next
      case (Suc k)
      then have "bmp_199x2_pad ! (651 + 3 * i) = 0" "bmp_199x2_pad ! (651 + 3 * i + 1) = 0"
          "bmp_199x2_pad ! (651 + 3 * i + 2) = 0"
        using i by (simp_all add: zero)
      then show ?thesis using e Suc i by (simp add: pixel_at_def px)
    qed
  qed
  have rs: "unat (rowSize_of 24 (bmpWidth (header_of bmp_199x2_pad))) = 600"
    using rowSize_24 [of "bmpWidth (header_of bmp_199x2_pad)"]
    by (simp add: bmp_199x2_pad_def header_top_down_199)
  have d1: "take (3 * 199) (drop 654 bmp_199x2_pad) = replicate 597 0"
    by (simp add: bmp_199x2_pad_def top_down_199_def length_bmp_header)
  have d2: "take 3 (drop (54 + 3 * 199) bmp_199x2_pad) = [0xFF, 0xFF, 0xFF]"
    by (simp add: bmp_199x2_pad_def top_down_199_def length_bmp_header)
  show ?thesis
    using run cv(1) row rs d1 d2
    by simp (simp add: bmp_199x2_pad_def header_top_down_199)
qed

section \<open>A full segment followed by a null slot\<close>

text \<open>
  When the current canvas is full and the next slot is null, the pixel loop dereferences the
  null pointer.
\<close>

lemma capacity_update: "capacity (c\<lparr>buffer := b\<rparr>) = capacity c"
  by (simp add: capacity_def)

lemma pixel_loop_null:
  "canvases s ! currentCanvas s = Some c \<Longrightarrow> currentCanvas s < length (canvases s) \<Longrightarrow>
   capacity c = length (buffer c) \<Longrightarrow> destidx s < length (buffer c) \<Longrightarrow>
   unat (currentCanvasIndex s + 1) < NUM_CANVAS \<Longrightarrow>
   unat (currentCanvasIndex s + 1) \<noteq> currentCanvas s \<Longrightarrow>
   canvases s ! unat (currentCanvasIndex s + 1) = None \<Longrightarrow>
   n = length (buffer c) - destidx s \<Longrightarrow> n \<le> nat loadWidth - col \<Longrightarrow>
     pixel_loop loadWidth col s = Inl NullPointer"
proof (induction n arbitrary: s c col)
  case 0
  then show ?case by simp
next
  case (Suc n)
  let ?s1 = "load_more s"
  let ?t = "?s1\<lparr>srcidx := srcidx ?s1 + 3\<rparr>"
  let ?v = "color565 (sdbuf ?s1 ! (srcidx ?s1 + 2)) (sdbuf ?s1 ! (srcidx ?s1 + 1)) (sdbuf ?s1 ! srcidx ?s1)"
  let ?c' = "c\<lparr>buffer := (buffer c)[destidx s := ?v]\<rparr>"
  let ?cs' = "(canvases s)[currentCanvas s := Some ?c']"
  have col: "int col < loadWidth" using Suc.prems(9) by linarith
  have pb: "pixel_body s = store_pixel ?v ?t" by (simp add: pixel_body_def Let_def)
  have dst: "canvases ?t = canvases s" "destidx ?t = destidx s" "currentCanvas ?t = currentCanvas s"
    "currentCanvasIndex ?t = currentCanvasIndex s"
    using load_more_dest [of s] by simp_all
  have nxt: "?cs' ! unat (currentCanvasIndex s + 1) = None"
    using Suc.prems(6,7) by simp
  have cur: "?cs' ! currentCanvas s = Some ?c'" using Suc.prems(2) by simp
  show ?case
  proof (cases "capacity c \<le> destidx s + 1")
    case True
    then have "store_pixel ?v ?t = Inl NullPointer"
      using Suc.prems(1,4,5) nxt dst by (simp add: store_pixel_def Let_def)
    then show ?thesis using col pb by (subst pixel_loop.simps) simp
  next
    case False
    let ?st' = "?t\<lparr>canvases := ?cs', destidx := destidx s + 1\<rparr>"
    have st: "store_pixel ?v ?t = Inr ?st'"
      using False Suc.prems(1,4) dst by (simp add: store_pixel_def Let_def)
    have "pixel_loop loadWidth (col + 1) ?st' = Inl NullPointer"
    proof (rule Suc.IH [of ?st' ?c'])
      show "canvases ?st' ! currentCanvas ?st' = Some ?c'" using cur dst by simp
      show "currentCanvas ?st' < length (canvases ?st')" using Suc.prems(2) dst by simp
      show "capacity ?c' = length (buffer ?c')" using Suc.prems(3) by (simp add: capacity_update)
      show "destidx ?st' < length (buffer ?c')" using False Suc.prems(3) by simp
      show "unat (currentCanvasIndex ?st' + 1) < NUM_CANVAS" using Suc.prems(5) dst by simp
      show "unat (currentCanvasIndex ?st' + 1) \<noteq> currentCanvas ?st'" using Suc.prems(6) dst by simp
      show "canvases ?st' ! unat (currentCanvasIndex ?st' + 1) = None" using nxt dst by simp
      show "n = length (buffer ?c') - destidx ?st'" using Suc.prems(8) by simp
      show "n \<le> nat loadWidth - (col + 1)" using Suc.prems(9) by simp
    qed
    then show ?thesis using col pb st by (subst pixel_loop.simps) simp
  qed
qed

lemma header_65537x20:
  "signature_of bmp_65537x20 = 0x4D42"
  "header_of bmp_65537x20 =
     \<lparr>offset = 54, headerSize = 40, bmpWidth = 65537, bmpHeight = 20, flip = True,
      planes = 1, depth = 24, compression = 0\<rparr>"
  by (simp_all add: bmp_65537x20_def header_of_bmp_header le32_at_def)

text \<open>
  Claim C10 on \<open>bmp_65537x20\<close>: the width field is 65537, the height 20. One canvas is
  allocated, of 1 by 20 pixels (the width is cut to 16 bits), and the other slots stay
  null. The canvas is full after 20 pixels of row 0, a row of 65537 pixels; the index moves
  to slot 1, whose null pointer is dereferenced: the call does not return.
\<close>

theorem C10_null_canvas_after_last_segment:
  "loadBMP (one_file bmp_65537x20) every_new [] ''a.bmp'' (SPIFFS_Image_new 0 0) = Inl NullPointer \<and>
   bmpWidth (header_of bmp_65537x20) = 65537 \<and> bmpHeight (header_of bmp_65537x20) = 20 \<and>
   alloc_loop every_new 65537 0 True 20 (replicate NUM_CANVAS None)
     = (True, Some (new_GFXcanvas16 1 20) # replicate 11 None) \<and>
   capacity (new_GFXcanvas16 1 20) = 20"
proof -
  let ?hdr = "header_of bmp_65537x20"
  let ?rs = "rowSize_of 24 (bmpWidth ?hdr)"
  let ?cs = "Some (new_GFXcanvas16 1 20) # replicate 11 None"
  note h = header_65537x20
  have u: "(65537 :: 16 word) = 1" by simp
  have a: "alloc_loop every_new 65537 0 True 20 (replicate NUM_CANVAS None) = (True, ?cs)"
    using alloc_loop_multiple [of every_new "replicate NUM_CANVAS None" 0 1 65537]
    by (simp add: CANVAS_HEIGHT_def NUM_CANVAS_def u)
  have cap: "capacity (new_GFXcanvas16 1 20) = 20"
    using capacity_new [of 1 20] by simp
  define init where "init = \<lparr>bmp_file = file_after_header bmp_65537x20,
      sdbuf = take (3 * BUFPIXELS) ([] @ replicate (3 * BUFPIXELS) 0),
      srcidx = 3 * BUFPIXELS, destidx = 0, currentCanvasIndex = 0, currentCanvas = 0, canvases = ?cs\<rparr>"
  define st where "st = seek_row ?hdr ?rs 0 init"
  have d: "canvases st = ?cs" "destidx st = 0" "currentCanvas st = 0" "currentCanvasIndex st = 0"
    using seek_row_dest [of ?hdr ?rs 0 init] by (simp_all add: st_def init_def)
  have "pixel_loop (sint (bmpWidth ?hdr)) 0 st = Inl NullPointer"
  proof (rule pixel_loop_null [of st "new_GFXcanvas16 1 20" 20])
    show "canvases st ! currentCanvas st = Some (new_GFXcanvas16 1 20)" by (simp add: d)
    show "currentCanvas st < length (canvases st)" by (simp add: d)
    show "capacity (new_GFXcanvas16 1 20) = length (buffer (new_GFXcanvas16 1 20))"
      using cap by (simp add: new_GFXcanvas16_def)
    show "destidx st < length (buffer (new_GFXcanvas16 1 20))" by (simp add: d new_GFXcanvas16_def)
    show "unat (currentCanvasIndex st + 1) < NUM_CANVAS" by (simp add: d NUM_CANVAS_def)
    show "unat (currentCanvasIndex st + 1) \<noteq> currentCanvas st" by (simp add: d)
    show "canvases st ! unat (currentCanvasIndex st + 1) = None" by (simp add: d)
    show "20 = length (buffer (new_GFXcanvas16 1 20)) - destidx st" by (simp add: d new_GFXcanvas16_def)
    show "20 \<le> nat (sint (bmpWidth ?hdr)) - 0" by (simp add: h)
  qed
  then have "row_loop ?hdr ?rs 0 init = Inl NullPointer"
    unfolding st_def by (subst row_loop.simps) (simp add: h NUM_CANVAS_def init_def)
  then have "load24 every_new [] ?hdr ?rs (file_after_header bmp_65537x20) (dealloc (SPIFFS_Image_new 0 0))
      = Inl NullPointer"
    using a by (simp add: load24_def Let_def dealloc_def h init_def)
  then have "loadBMP (one_file bmp_65537x20) every_new [] ''a.bmp'' (SPIFFS_Image_new 0 0) = Inl NullPointer"
    using coreBMP_signature_ok [where fs = "one_file bmp_65537x20" and name = "''a.bmp''"
        and bytes = bmp_65537x20, OF one_file_a h(1)]
    by (simp add: loadBMP_def h)
  then show ?thesis using a cap by (simp add: h)
qed

end
